theory Spec2Isabelle
  imports Complex_Main "HOL-Library.AList"
begin

section \<open>The JavaScript runtime the code relies on\<close>

text \<open>
  The availability route (\<^verbatim>\<open>route.ts\<close>) and the calendar normaliser
  (\<^verbatim>\<open>parse-ics.ts\<close>) call a few built-ins of the platform: \<^verbatim>\<open>Number(string)\<close>, the
  conversion of a number to a string, and two \<^verbatim>\<open>Intl.DateTimeFormat\<close> objects for the
  zone America/Chicago. They are not code of the repository, so the model takes them as
  a parameter \<open>rt\<close>, and every general theorem holds for any choice of them. A concrete
  instance, defined further down, is used to evaluate examples.

  A JavaScript number is modelled as \<open>rat option\<close>: \<open>Some q\<close> is the finite number
  \<open>q\<close>, \<open>None\<close> is a value that \<^verbatim>\<open>Number.isFinite\<close> rejects (\<^verbatim>\<open>NaN\<close>). Arithmetic on
  finite numbers is exact: the rounding of doubles and their overflow are not modelled.
  A \<^verbatim>\<open>Date\<close> is its time value, an \<open>int\<close> of milliseconds since the epoch.
\<close>

type_synonym jsnum = "rat option"

type_synonym Date = int

record js_runtime =
  Number :: "string \<Rightarrow> jsnum"
  numToString :: "rat \<Rightarrow> string"
  TIME_FORMATTER :: "Date \<Rightarrow> (string \<times> string) list"
  WEEKDAY_FORMATTER :: "Date \<Rightarrow> string"

text \<open>
  \<open>TIME_FORMATTER rt d\<close> is \<^verbatim>\<open>TIME_FORMATTER.formatToParts(d)\<close>, a list of parts
  \<open>(type, value)\<close>; \<open>WEEKDAY_FORMATTER rt d\<close> is \<^verbatim>\<open>WEEKDAY_FORMATTER.format(d)\<close>.
\<close>

definition Number_isFinite :: "jsnum \<Rightarrow> bool" where
  "Number_isFinite x = (x \<noteq> None)"

text \<open>\<^verbatim>\<open>Number(x)\<close> where \<^verbatim>\<open>x\<close> may be \<^verbatim>\<open>undefined\<close> (then the result is \<^verbatim>\<open>NaN\<close>).\<close>

definition NumberOf :: "js_runtime \<Rightarrow> string option \<Rightarrow> jsnum" where
  "NumberOf rt x = (case x of None \<Rightarrow> None | Some s \<Rightarrow> Number rt s)"

text \<open>\<^verbatim>\<open>Number.isFinite(x) ? x : 0\<close>.\<close>

definition finiteOrZero :: "jsnum \<Rightarrow> rat" where
  "finiteOrZero x = (if Number_isFinite x then the x else 0)"

text \<open>Comparisons with \<^verbatim>\<open>NaN\<close> are false; arithmetic with \<^verbatim>\<open>NaN\<close> is \<^verbatim>\<open>NaN\<close>.\<close>

definition jsLess :: "jsnum \<Rightarrow> jsnum \<Rightarrow> bool" where
  "jsLess a b = (case (a, b) of (Some x, Some y) \<Rightarrow> x < y | _ \<Rightarrow> False)"

definition jsLessEq :: "jsnum \<Rightarrow> jsnum \<Rightarrow> bool" where
  "jsLessEq a b = (case (a, b) of (Some x, Some y) \<Rightarrow> x \<le> y | _ \<Rightarrow> False)"

definition jsAdd :: "jsnum \<Rightarrow> jsnum \<Rightarrow> jsnum" where
  "jsAdd a b = (case (a, b) of (Some x, Some y) \<Rightarrow> Some (x + y) | _ \<Rightarrow> None)"

definition jsMul :: "jsnum \<Rightarrow> jsnum \<Rightarrow> jsnum" where
  "jsMul a b = (case (a, b) of (Some x, Some y) \<Rightarrow> Some (x * y) | _ \<Rightarrow> None)"

text \<open>The remainder operator \<^verbatim>\<open>%\<close>: the quotient is truncated towards zero.\<close>

definition jsRemainder :: "rat \<Rightarrow> rat \<Rightarrow> rat" where
  "jsRemainder a b =
     (let q = a / b in a - b * of_int (if q < 0 then \<lceil>q\<rceil> else \<lfloor>q\<rfloor>))"

text \<open>
  \<^verbatim>\<open>s.split(c)\<close> for a one-character separator: the result is never empty, and an
  index past its end reads \<^verbatim>\<open>undefined\<close>.
\<close>

fun splitOn :: "char \<Rightarrow> string \<Rightarrow> string list" where
  "splitOn c [] = [[]]"
| "splitOn c (x # xs) =
     (if x = c then [] # splitOn c xs
      else (case splitOn c xs of [] \<Rightarrow> [[x]] | p # ps \<Rightarrow> (x # p) # ps))"

definition nthOpt :: "'a list \<Rightarrow> nat \<Rightarrow> 'a option" where
  "nthOpt xs i = (if i < length xs then Some (xs ! i) else None)"

definition padStart :: "nat \<Rightarrow> char \<Rightarrow> string \<Rightarrow> string" where
  "padStart n c s = replicate (n - length s) c @ s"

text \<open>
  \<^verbatim>\<open>String.prototype.trim\<close>, for the ASCII white space (tab, line feed, vertical tab,
  form feed, carriage return, space).
\<close>

definition isSpace :: "char \<Rightarrow> bool" where
  "isSpace c = (c \<in> set [CHR 0x09, CHR 0x0A, CHR 0x0B, CHR 0x0C, CHR 0x0D, CHR 0x20])"

definition trim :: "string \<Rightarrow> string" where
  "trim s = rev (dropWhile isSpace (rev (dropWhile isSpace s)))"

text \<open>\<^verbatim>\<open>parts.find((part) => part.type === ty)?.value\<close>.\<close>

definition partValue :: "string \<Rightarrow> (string \<times> string) list \<Rightarrow> string option" where
  "partValue ty parts = map_option snd (List.find (\<lambda>part. fst part = ty) parts)"

text \<open>
  A \<^verbatim>\<open>Map<string, V>\<close> is an association list with distinct keys in insertion
  order: \<^verbatim>\<open>get\<close> is \<^const>\<open>map_of\<close>, and \<^verbatim>\<open>set\<close> is \<^const>\<open>AList.update\<close>, which
  replaces the value of a present key in place and appends a new key at the end.
  A \<^verbatim>\<open>Set<number>\<close> is a list without duplicates in insertion order.
\<close>

type_synonym 'v jsmap = "(string \<times> 'v) list"

definition setAdd :: "'a \<Rightarrow> 'a list \<Rightarrow> 'a list" where
  "setAdd x xs = (if x \<in> set xs then xs else xs @ [x])"

section \<open>Data model\<close>

text \<open>
  The object types of the two modules. Several of them share field names; where the
  name alone would be ambiguous it is written with its record, as in
  \<open>MemberRow.user_id\<close>.
\<close>

record ParsedTime =
  minutes :: jsnum
  label :: string

record TimeParts =
  weekday :: int
  hours :: jsnum
  minutes :: jsnum

record Profile =
  display_name :: "string option"

record MemberRow =
  user_id :: string
  profiles :: "Profile option"

record UnknownEntry =
  user_id :: string
  display_name :: string

record FreeEntry = UnknownEntry +
  free_until :: "string option"

record BusyEntry = UnknownEntry +
  busy_until :: string

record Payload =
  free :: "FreeEntry list"
  busy :: "BusyEntry list"
  unknown :: "UnknownEntry list"
  checked_time :: "string option"

datatype Response = ErrorResponse nat string | AvailabilityResponse Payload

record BusyMapEntry =
  busy_until :: string
  endMinutes :: rat

record NextBusyEntry =
  startMinutes :: rat
  startLabel :: string

text \<open>The result \<^verbatim>\<open>{ data, error }\<close> of a query to the store.\<close>

record 'a DbResult =
  data :: "'a option"
  error :: "string option"

text \<open>
  The recurrence descriptor of a parsed event: \<^verbatim>\<open>byweekday\<close> is a number, an object
  with an optional \<^verbatim>\<open>weekday\<close> field, or an array of these (an array element may also
  be \<^verbatim>\<open>null\<close>, which the code tolerates).
\<close>

datatype WeekdayEntry = NumberEntry int | ObjectEntry "int option" | NullEntry

datatype ByWeekday = ArrayOf "WeekdayEntry list" | Single WeekdayEntry

record RRuleOptions =
  byweekday :: "ByWeekday option"

record RRule =
  options :: "RRuleOptions option"

text \<open>\<open>start\<close> and \<open>end\<close> are \<open>None\<close> when the field is not a \<^verbatim>\<open>Date\<close>.\<close>

record ParsedEvent =
  type :: "string option"
  start :: "Date option"
  "end" :: "Date option"
  datetype :: "string option"
  rrule :: "RRule option"

record BusyBlockInput =
  weekday :: int
  start_time :: string
  end_time :: string

record BusyBlockRow =
  user_id :: string
  start_time :: string
  end_time :: string

record BusyInterval =
  startMinutes :: rat
  endMinutes :: rat
  start_time :: string
  end_time :: string

section \<open>TimeCodec (route.ts)\<close>

definition WEEKDAY_LOOKUP :: "string \<Rightarrow> int option" where
  "WEEKDAY_LOOKUP =
     map_of [(''Mon'', 1), (''Tue'', 2), (''Wed'', 3), (''Thu'', 4), (''Fri'', 5),
             (''Sat'', 6), (''Sun'', 7)]"

text \<open>\<^verbatim>\<open>timeToMinutes\<close>, lines 106 to 112.\<close>

definition timeToMinutes :: "js_runtime \<Rightarrow> string \<Rightarrow> jsnum" where
  "timeToMinutes rt timeValue =
     (let parts = map (Number rt) (splitOn CHR '':'' timeValue);
          hours = Option.bind (nthOpt parts 0) id;
          minutes = Option.bind (nthOpt parts 1) id;
          seconds = Option.bind (nthOpt parts 2) id;
          safeHours = finiteOrZero hours;
          safeMinutes = finiteOrZero minutes;
          safeSeconds = finiteOrZero seconds
      in Some (safeHours * 60 + safeMinutes + safeSeconds / 60))"

text \<open>\<^verbatim>\<open>formatTime\<close> of route.ts, lines 114 to 123. The period is upper case.\<close>

definition formatTime :: "js_runtime \<Rightarrow> string \<Rightarrow> string" where
  "formatTime rt timeValue =
     (let parts = splitOn CHR '':'' timeValue;
          hours = NumberOf rt (nthOpt parts 0);
          minutes = NumberOf rt (nthOpt parts 1);
          safeHours = finiteOrZero hours;
          safeMinutes = finiteOrZero minutes;
          period = (if safeHours \<ge> 12 then ''PM'' else ''AM'');
          displayHours = jsRemainder (safeHours + 11) 12 + 1
      in numToString rt displayHours @ '':''
           @ padStart 2 CHR ''0'' (numToString rt safeMinutes) @ period)"

text \<open>
  The regular expression of \<^verbatim>\<open>parseTimeParam\<close> (line 192),
  \<^verbatim>\<open>/^([01]?\d|2[0-3]):([0-5]\d)(?::([0-5]\d))?$/\<close>, as a backtracking matcher.
  \<open>hourCandidates\<close> lists the ways the first group can match a prefix, in the order
  the engine tries them (the greedy \<^verbatim>\<open>[01]?\<close> taken, then skipped, then the second
  alternative), each with the rest of the input; \<open>matchTail\<close> matches the rest of the
  pattern up to the end of the input.
\<close>

definition isDigit :: "char \<Rightarrow> bool" where
  "isDigit c = (c \<in> set ''0123456789'')"

definition hourCandidates :: "string \<Rightarrow> (string \<times> string) list" where
  "hourCandidates s =
     (case s of a # d # rest \<Rightarrow> if a \<in> set ''01'' \<and> isDigit d then [([a, d], rest)] else []
              | _ \<Rightarrow> [])
     @ (case s of d # rest \<Rightarrow> if isDigit d then [([d], rest)] else [] | _ \<Rightarrow> [])
     @ (case s of a # b # rest \<Rightarrow>
                    if a = CHR ''2'' \<and> b \<in> set ''0123'' then [([a, b], rest)] else []
               | _ \<Rightarrow> [])"

definition matchTail :: "string \<Rightarrow> (string \<times> string option) option" where
  "matchTail s =
     (if length s = 3 \<and> s ! 0 = CHR '':'' \<and> s ! 1 \<in> set ''012345'' \<and> isDigit (s ! 2)
      then Some ([s ! 1, s ! 2], None)
      else if length s = 6 \<and> s ! 0 = CHR '':'' \<and> s ! 1 \<in> set ''012345'' \<and> isDigit (s ! 2)
                \<and> s ! 3 = CHR '':'' \<and> s ! 4 \<in> set ''012345'' \<and> isDigit (s ! 5)
      then Some ([s ! 1, s ! 2], Some [s ! 4, s ! 5])
      else None)"

definition timeRegexMatch :: "string \<Rightarrow> (string \<times> string \<times> string option) option" where
  "timeRegexMatch s =
     (case List.map_filter
             (\<lambda>(h, rest). map_option (\<lambda>(m, sec). (h, m, sec)) (matchTail rest))
             (hourCandidates s)
      of [] \<Rightarrow> None | r # _ \<Rightarrow> Some r)"

text \<open>\<^verbatim>\<open>parseTimeParam\<close>, lines 186 to 204.\<close>

definition parseTimeParam :: "js_runtime \<Rightarrow> string option \<Rightarrow> ParsedTime option" where
  "parseTimeParam rt timeValue =
     (case timeValue of
        None \<Rightarrow> None
      | Some tv \<Rightarrow>
          if tv = [] then None
          else
            (case timeRegexMatch tv of
               None \<Rightarrow> None
             | Some (m1, m2, m3) \<Rightarrow>
                 (let normalized = m1 @ '':'' @ m2 @ '':''
                                     @ (case m3 of None \<Rightarrow> ''00'' | Some sec \<Rightarrow> sec)
                  in Some \<lparr>ParsedTime.minutes = timeToMinutes rt normalized,
                           label = formatTime rt normalized\<rparr>)))"

text \<open>
  \<^verbatim>\<open>getCurrentTimeParts\<close>, lines 206 to 217. Its argument is what
  \<^verbatim>\<open>NOW_FORMATTER.formatToParts(new Date())\<close> returns, the reading of the clock.
\<close>

definition getCurrentTimeParts :: "js_runtime \<Rightarrow> (string \<times> string) list \<Rightarrow> TimeParts" where
  "getCurrentTimeParts rt parts =
     (let weekdayLabel = partValue ''weekday'' parts;
          hours = (case partValue ''hour'' parts of None \<Rightarrow> ''00'' | Some v \<Rightarrow> v);
          minutes = (case partValue ''minute'' parts of None \<Rightarrow> ''00'' | Some v \<Rightarrow> v);
          weekday = (case weekdayLabel of
                       None \<Rightarrow> None
                     | Some l \<Rightarrow> if l = [] then None else WEEKDAY_LOOKUP l)
      in \<lparr>TimeParts.weekday = (case weekday of None \<Rightarrow> 1 | Some w \<Rightarrow> w),
          hours = Number rt hours,
          minutes = Number rt minutes\<rparr>)"

section \<open>IntervalMerger (route.ts)\<close>

text \<open>
  The first loop of \<^verbatim>\<open>mergeBusyIntervals\<close> (lines 128 to 148), one block at a time:
  blocks with a non-finite bound or with \<^verbatim>\<open>endMinutes <= startMinutes\<close> are skipped,
  the others are pushed onto the array of their user. (With exact arithmetic
  \<open>timeToMinutes\<close> is always finite, so the first guard never fires here; it is kept
  as the code has it.)
\<close>

definition groupStep ::
  "js_runtime \<Rightarrow> BusyInterval list jsmap \<Rightarrow> BusyBlockRow \<Rightarrow> BusyInterval list jsmap" where
  "groupStep rt grouped block =
     (let startMinutes = timeToMinutes rt (BusyBlockRow.start_time block);
          endMinutes = timeToMinutes rt (BusyBlockRow.end_time block)
      in if \<not> Number_isFinite startMinutes \<or> \<not> Number_isFinite endMinutes then grouped
         else if jsLessEq endMinutes startMinutes then grouped
         else
           (let existing = (case map_of grouped (BusyBlockRow.user_id block) of
                              None \<Rightarrow> [] | Some e \<Rightarrow> e)
            in AList.update (BusyBlockRow.user_id block)
                 (existing @ [\<lparr>startMinutes = the startMinutes, endMinutes = the endMinutes,
                                start_time = BusyBlockRow.start_time block,
                                end_time = BusyBlockRow.end_time block\<rparr>])
                 grouped))"

definition groupBlocks :: "js_runtime \<Rightarrow> BusyBlockRow list \<Rightarrow> BusyInterval list jsmap" where
  "groupBlocks rt blocks = foldl (groupStep rt) [] blocks"

text \<open>The comparator passed to \<^verbatim>\<open>sort\<close> (lines 152 to 157).\<close>

definition compareIntervals :: "BusyInterval \<Rightarrow> BusyInterval \<Rightarrow> rat" where
  "compareIntervals a b =
     (if startMinutes a \<noteq> startMinutes b then startMinutes a - startMinutes b
      else endMinutes a - endMinutes b)"

text \<open>
  \<^verbatim>\<open>Array.prototype.sort\<close> with a comparator is a stable sort: elements that compare
  equal keep their order. It is modelled by insertion from the right.
\<close>

fun insertBy :: "('a \<Rightarrow> 'a \<Rightarrow> rat) \<Rightarrow> 'a \<Rightarrow> 'a list \<Rightarrow> 'a list" where
  "insertBy cmp x [] = [x]"
| "insertBy cmp x (y # ys) = (if cmp x y \<le> 0 then x # y # ys else y # insertBy cmp x ys)"

definition sortBy :: "('a \<Rightarrow> 'a \<Rightarrow> rat) \<Rightarrow> 'a list \<Rightarrow> 'a list" where
  "sortBy cmp xs = foldr (insertBy cmp) xs []"

text \<open>
  The body of the sweep (lines 160 to 178). \<^verbatim>\<open>last\<close> is the last element of
  \<^verbatim>\<open>merged\<close>; extending it updates \<^verbatim>\<open>endMinutes\<close> and \<^verbatim>\<open>end_time\<close> together, in
  place in \<^verbatim>\<open>merged\<close> (the elements of \<^verbatim>\<open>merged\<close> are copies, so the sorted array
  is not changed).
\<close>

definition mergeStep :: "BusyInterval list \<Rightarrow> BusyInterval \<Rightarrow> BusyInterval list" where
  "mergeStep merged interval =
     (if merged = [] then [interval]
      else
        (let last = last merged
         in if startMinutes interval \<le> endMinutes last then
              (if endMinutes interval > endMinutes last then
                 butlast merged @ [last\<lparr>endMinutes := endMinutes interval,
                                        end_time := end_time interval\<rparr>]
               else merged)
            else merged @ [interval]))"

definition mergeSorted :: "BusyInterval list \<Rightarrow> BusyInterval list" where
  "mergeSorted intervals = foldl mergeStep [] intervals"

text \<open>\<^verbatim>\<open>mergeBusyIntervals\<close>, lines 125 to 184.\<close>

definition mergeBusyIntervals :: "js_runtime \<Rightarrow> BusyBlockRow list \<Rightarrow> BusyInterval list jsmap" where
  "mergeBusyIntervals rt blocks =
     (let grouped = groupBlocks rt blocks
      in foldl (\<lambda>mergedByUser (userId, intervals).
                  AList.update userId (mergeSorted (sortBy compareIntervals intervals)) mergedByUser)
           [] grouped)"

section \<open>AvailabilityClassifier (the GET handler of route.ts)\<close>

text \<open>
  The scan of the merged intervals (lines 336 to 367), one interval of one user at a
  time. \<open>busyMap\<close> keeps, per user, the containing interval with the greatest end;
  \<open>nextBusyMap\<close> keeps the interval after the reference minute with the least start.
\<close>

definition scanInterval ::
  "js_runtime \<Rightarrow> jsnum \<Rightarrow> string \<Rightarrow> BusyMapEntry jsmap \<times> NextBusyEntry jsmap \<Rightarrow> BusyInterval
     \<Rightarrow> BusyMapEntry jsmap \<times> NextBusyEntry jsmap" where
  "scanInterval rt referenceMinutes userId state interval =
     (let busyMap = fst state;
          nextBusyMap = snd state;
          nextBusyMap' =
            (if jsLess referenceMinutes (Some (startMinutes interval)) then
               (let existingNext = map_of nextBusyMap userId
                in if existingNext = None
                      \<or> startMinutes interval < NextBusyEntry.startMinutes (the existingNext)
                   then AList.update userId
                          \<lparr>NextBusyEntry.startMinutes = startMinutes interval,
                           startLabel = formatTime rt (start_time interval)\<rparr> nextBusyMap
                   else nextBusyMap)
             else nextBusyMap);
          busyMap' =
            (if jsLessEq (Some (startMinutes interval)) referenceMinutes
                \<and> jsLess referenceMinutes (Some (endMinutes interval)) then
               (let existing = map_of busyMap userId
                in if existing = None
                      \<or> endMinutes interval > BusyMapEntry.endMinutes (the existing)
                   then AList.update userId
                          \<lparr>BusyMapEntry.busy_until = formatTime rt (end_time interval),
                           endMinutes = endMinutes interval\<rparr> busyMap
                   else busyMap)
             else busyMap)
      in (busyMap', nextBusyMap'))"

definition scanIntervals ::
  "js_runtime \<Rightarrow> jsnum \<Rightarrow> BusyInterval list jsmap
     \<Rightarrow> BusyMapEntry jsmap \<times> NextBusyEntry jsmap" where
  "scanIntervals rt referenceMinutes mergedBusyBlocksByUser =
     foldl (\<lambda>state (userId, intervals). foldl (scanInterval rt referenceMinutes userId) state intervals)
       ([], []) mergedBusyBlocksByUser"

text \<open>The name shown for a member (lines 382 and 383).\<close>

definition memberName :: "MemberRow \<Rightarrow> string" where
  "memberName member =
     (let displayName =
            (case profiles member of
               None \<Rightarrow> None
             | Some p \<Rightarrow> map_option trim (Profile.display_name p))
      in case displayName of
           None \<Rightarrow> MemberRow.user_id member
         | Some d \<Rightarrow> if d = [] then MemberRow.user_id member else d)"

text \<open>
  The body of the loop over the members (lines 381 to 406); the state is the three
  arrays \<^verbatim>\<open>free\<close>, \<^verbatim>\<open>busy\<close> and \<^verbatim>\<open>unknown\<close>.
\<close>

definition classifyMember ::
  "string set \<Rightarrow> BusyMapEntry jsmap \<Rightarrow> NextBusyEntry jsmap
     \<Rightarrow> FreeEntry list \<times> BusyEntry list \<times> UnknownEntry list \<Rightarrow> MemberRow
     \<Rightarrow> FreeEntry list \<times> BusyEntry list \<times> UnknownEntry list" where
  "classifyMember uploadedSet busyMap nextBusyMap arrays member =
     (let free = fst arrays; busy = fst (snd arrays); unknown = snd (snd arrays);
          name = memberName member
      in if MemberRow.user_id member \<notin> uploadedSet then
           (free, busy,
            unknown @ [\<lparr>UnknownEntry.user_id = MemberRow.user_id member, display_name = name\<rparr>])
         else
           (case map_of busyMap (MemberRow.user_id member) of
              Some busyEntry \<Rightarrow>
                (free,
                 busy @ [\<lparr>UnknownEntry.user_id = MemberRow.user_id member, display_name = name,
                          BusyEntry.busy_until = BusyMapEntry.busy_until busyEntry\<rparr>],
                 unknown)
            | None \<Rightarrow>
                (free @ [\<lparr>UnknownEntry.user_id = MemberRow.user_id member, display_name = name,
                          free_until = map_option startLabel
                                         (map_of nextBusyMap (MemberRow.user_id member))\<rparr>],
                 busy, unknown)))"

definition classifyMembers ::
  "string set \<Rightarrow> BusyMapEntry jsmap \<Rightarrow> NextBusyEntry jsmap \<Rightarrow> MemberRow list
     \<Rightarrow> FreeEntry list \<times> BusyEntry list \<times> UnknownEntry list" where
  "classifyMembers uploadedSet busyMap nextBusyMap normalizedMembers =
     foldl (classifyMember uploadedSet busyMap nextBusyMap) ([], [], []) normalizedMembers"

text \<open>
  The reference minute (lines 313 and 314): the minute of the \<^verbatim>\<open>time\<close> parameter when
  there is one, the current minute of the day otherwise.
\<close>

definition referenceMinutesOf :: "ParsedTime option \<Rightarrow> TimeParts \<Rightarrow> jsnum" where
  "referenceMinutesOf parsedTime nowParts =
     (let nowMinutes = jsAdd (jsMul (hours nowParts) (Some 60)) (TimeParts.minutes nowParts)
      in case parsedTime of None \<Rightarrow> nowMinutes | Some p \<Rightarrow> ParsedTime.minutes p)"

definition isWeekdayOf :: "TimeParts \<Rightarrow> bool" where
  "isWeekdayOf nowParts = (TimeParts.weekday nowParts \<ge> 1 \<and> TimeParts.weekday nowParts \<le> 5)"

text \<open>
  The read of the busy blocks (lines 316 to 332). \<open>fetchBlocks weekday userIds\<close> is the
  query on \<^verbatim>\<open>weekday_busy_blocks\<close>; the second component of the result is the list of
  the queries that were issued, in order.
\<close>

definition loadBusyBlocks ::
  "TimeParts \<Rightarrow> string list \<Rightarrow> (int \<Rightarrow> string list \<Rightarrow> BusyBlockRow list DbResult)
     \<Rightarrow> (string + BusyBlockRow list) \<times> (int \<times> string list) list" where
  "loadBusyBlocks nowParts userIds fetchBlocks =
     (if isWeekdayOf nowParts then
        (let result = fetchBlocks (TimeParts.weekday nowParts) userIds;
             issued = [(TimeParts.weekday nowParts, userIds)]
         in if error result \<noteq> None then (Inl ''Failed to load busy blocks'', issued)
            else (Inr (case data result of None \<Rightarrow> [] | Some blocks \<Rightarrow> blocks), issued))
      else (Inr [], []))"

text \<open>
  The classification proper (lines 334 to 406 of the GET handler): merge the blocks,
  scan the merged intervals against the reference minute, and sort the members into
  the three arrays.
\<close>

definition classify ::
  "js_runtime \<Rightarrow> jsnum \<Rightarrow> string set \<Rightarrow> MemberRow list \<Rightarrow> BusyBlockRow list
     \<Rightarrow> FreeEntry list \<times> BusyEntry list \<times> UnknownEntry list" where
  "classify rt referenceMinutes uploadedSet normalizedMembers busyBlocks =
     (let mergedBusyBlocksByUser = mergeBusyIntervals rt busyBlocks;
          state = scanIntervals rt referenceMinutes mergedBusyBlocksByUser
      in classifyMembers uploadedSet (fst state) (snd state) normalizedMembers)"

text \<open>
  The GET handler from line 231 on, given what the store returned for the members of
  the group (already normalised, lines 277 to 286) and for the calendar uploads. The
  authentication and the membership check (lines 223 to 263) are left out. The result
  is the response and the list of the busy-block queries that were issued.
\<close>

definition GET ::
  "js_runtime \<Rightarrow> string option \<Rightarrow> MemberRow list \<Rightarrow> string list DbResult
     \<Rightarrow> (string \<times> string) list \<Rightarrow> (int \<Rightarrow> string list \<Rightarrow> BusyBlockRow list DbResult)
     \<Rightarrow> Response \<times> (int \<times> string list) list" where
  "GET rt timeParam normalizedMembers uploads nowFormatted fetchBlocks =
     (let parsedTime = parseTimeParam rt timeParam;
          checkedTime = map_option label parsedTime
      in if timeParam \<noteq> None \<and> timeParam \<noteq> Some [] \<and> parsedTime = None then
           (ErrorResponse 400 ''Invalid time format. Use HH:MM.'', [])
         else
           (let userIds = map MemberRow.user_id normalizedMembers
            in if userIds = [] then
                 (AvailabilityResponse
                    \<lparr>free = [], busy = [], unknown = [], checked_time = checkedTime\<rparr>, [])
               else if error uploads \<noteq> None then
                 (ErrorResponse 500 ''Failed to load calendar status'', [])
               else
                 (let uploadedSet = set (case data uploads of None \<Rightarrow> [] | Some rows \<Rightarrow> rows);
                      nowParts = getCurrentTimeParts rt nowFormatted;
                      referenceMinutes = referenceMinutesOf parsedTime nowParts;
                      loaded = loadBusyBlocks nowParts userIds fetchBlocks
                  in case fst loaded of
                       Inl message \<Rightarrow> (ErrorResponse 500 message, snd loaded)
                     | Inr busyBlocks \<Rightarrow>
                         (let arrays = classify rt referenceMinutes uploadedSet
                                         normalizedMembers busyBlocks
                          in (AvailabilityResponse
                                \<lparr>free = fst arrays, busy = fst (snd arrays),
                                 unknown = snd (snd arrays), checked_time = checkedTime\<rparr>,
                              snd loaded)))))"

section \<open>RecurrenceResolver and IcsNormalizer (parse-ics.ts)\<close>

definition WEEKDAY_MIN :: int where
  "WEEKDAY_MIN = 1"

definition WEEKDAY_MAX :: int where
  "WEEKDAY_MAX = 5"

text \<open>\<^verbatim>\<open>formatTime\<close> of parse-ics.ts, lines 44 to 49.\<close>

definition formatTime_ics :: "js_runtime \<Rightarrow> Date \<Rightarrow> string" where
  "formatTime_ics rt v =
     (let parts = TIME_FORMATTER rt v;
          hours = (case partValue ''hour'' parts of None \<Rightarrow> ''00'' | Some h \<Rightarrow> h);
          minutes = (case partValue ''minute'' parts of None \<Rightarrow> ''00'' | Some m \<Rightarrow> m)
      in hours @ '':'' @ minutes @ '':00'')"

text \<open>\<^verbatim>\<open>getWeekdayInZone\<close>, lines 51 to 54.\<close>

definition getWeekdayInZone :: "js_runtime \<Rightarrow> Date \<Rightarrow> int option" where
  "getWeekdayInZone rt v = WEEKDAY_LOOKUP (WEEKDAY_FORMATTER rt v)"

text \<open>\<^verbatim>\<open>extractWeekdays\<close>, lines 56 to 85.\<close>

definition entryWeekday :: "WeekdayEntry \<Rightarrow> int option" where
  "entryWeekday entry =
     (case entry of NumberEntry n \<Rightarrow> Some n | ObjectEntry w \<Rightarrow> w | NullEntry \<Rightarrow> None)"

definition extractWeekdays :: "js_runtime \<Rightarrow> ParsedEvent \<Rightarrow> int list" where
  "extractWeekdays rt event =
     (let byweekday = Option.bind (rrule event) (\<lambda>r. Option.bind (options r) RRuleOptions.byweekday);
          fromRule =
            (case byweekday of
               None \<Rightarrow> None
             | Some bw \<Rightarrow>
                 (let weekdays = (case bw of ArrayOf es \<Rightarrow> es | Single e \<Rightarrow> [e]);
                      normalized =
                        foldl (\<lambda>normalized entry.
                                 case entryWeekday entry of
                                   Some w \<Rightarrow> setAdd (w + 1) normalized
                                 | None \<Rightarrow> normalized)
                          [] weekdays
                  in if length normalized > 0 then Some normalized else None))
      in case fromRule of
           Some ws \<Rightarrow> ws
         | None \<Rightarrow>
             (case start event of
                None \<Rightarrow> []
              | Some d \<Rightarrow>
                  (case getWeekdayInZone rt d of
                     None \<Rightarrow> []
                   | Some w \<Rightarrow> if w \<noteq> 0 then [w] else [])))"

text \<open>
  The body of the loop of \<^verbatim>\<open>parseIcsToBusyBlocks\<close> (lines 91 to 127): the blocks one
  entry of the parsed calendar contributes. An entry can be missing (\<open>None\<close>).
\<close>

definition entryBlocks :: "js_runtime \<Rightarrow> ParsedEvent option \<Rightarrow> BusyBlockInput list" where
  "entryBlocks rt entry =
     (case entry of
        None \<Rightarrow> []
      | Some e \<Rightarrow>
          if type e \<noteq> Some ''VEVENT'' then []
          else if start e = None \<or> end e = None then []
          else if datetype e = Some ''date'' then []
          else if the (end e) \<le> the (start e) then []
          else
            (let weekdays = extractWeekdays rt e
             in if length weekdays = 0 then []
                else
                  (let startTime = formatTime_ics rt (the (start e));
                       endTime = formatTime_ics rt (the (end e))
                   in map (\<lambda>w. \<lparr>BusyBlockInput.weekday = w, start_time = startTime,
                                  end_time = endTime\<rparr>)
                        (filter (\<lambda>w. \<not> (w < WEEKDAY_MIN \<or> w > WEEKDAY_MAX)) weekdays))))"

text \<open>
  \<^verbatim>\<open>parseIcsToBusyBlocks\<close>, lines 87 to 130. The ICS parser \<^verbatim>\<open>ical.parseICS\<close> is a
  library: the model starts from the entries it returns, \<^verbatim>\<open>Object.values(parsed)\<close>.
\<close>

definition parseIcsToBusyBlocks :: "js_runtime \<Rightarrow> ParsedEvent option list \<Rightarrow> BusyBlockInput list" where
  "parseIcsToBusyBlocks rt parsed = foldl (\<lambda>blocks entry. blocks @ entryBlocks rt entry) [] parsed"

section \<open>A concrete runtime for the examples\<close>

text \<open>
  An instance of the runtime that agrees with JavaScript on what the examples use:
  \<^verbatim>\<open>Number\<close> of a string of ASCII digits is its decimal value (and \<^verbatim>\<open>Number("")\<close> is
  0), an integer prints in decimal, and the formatters give the wall clock and the day
  of the week at six hours behind UTC, the offset of America/Chicago outside daylight
  saving time (the instants of the examples are in January 2024). Any other string is
  taken to \<^verbatim>\<open>NaN\<close> and a number that is not an integer prints as \<^verbatim>\<open>?\<close>: neither occurs
  in the examples.
\<close>

definition digitValue :: "char \<Rightarrow> nat" where
  "digitValue c = of_char c - 48"

definition digitsValue :: "string \<Rightarrow> nat" where
  "digitsValue s = foldl (\<lambda>acc c. 10 * acc + digitValue c) 0 s"

definition decimalNumber :: "string \<Rightarrow> jsnum" where
  "decimalNumber s = (if list_all isDigit s then Some (of_nat (digitsValue s)) else None)"

fun showNat :: "nat \<Rightarrow> string" where
  "showNat n = (if n < 10 then [''0123456789'' ! n]
                else showNat (n div 10) @ [''0123456789'' ! (n mod 10)])"

definition decimalToString :: "rat \<Rightarrow> string" where
  "decimalToString q =
     (if q = of_int \<lfloor>q\<rfloor> then
        (if q < 0 then CHR ''-'' # showNat (nat (- \<lfloor>q\<rfloor>)) else showNat (nat \<lfloor>q\<rfloor>))
      else ''?'')"

definition cstTimeParts :: "Date \<Rightarrow> (string \<times> string) list" where
  "cstTimeParts d =
     (let local = d - 6 * 3600000;
          h = nat ((local div 3600000) mod 24);
          m = nat ((local div 60000) mod 60)
      in [(''hour'', padStart 2 CHR ''0'' (showNat h)), (''literal'', '':''),
          (''minute'', padStart 2 CHR ''0'' (showNat m))])"

definition cstWeekdayLabel :: "Date \<Rightarrow> string" where
  "cstWeekdayLabel d =
     [''Thu'', ''Fri'', ''Sat'', ''Sun'', ''Mon'', ''Tue'', ''Wed'']
       ! nat (((d - 6 * 3600000) div 86400000) mod 7)"

definition exampleRuntime :: js_runtime where
  "exampleRuntime =
     \<lparr>Number = decimalNumber, numToString = decimalToString,
      TIME_FORMATTER = cstTimeParts, WEEKDAY_FORMATTER = cstWeekdayLabel\<rparr>"

section \<open>Notions of the specification\<close>

text \<open>
  The accepted forms of the \<^verbatim>\<open>time\<close> parameter, in the words of the specification:
  an hour of one or two digits from 0 to 23, a minute of two digits from 0 to 59 and,
  optionally, seconds of two digits from 0 to 59, separated by colons.
\<close>

definition hourField :: "string \<Rightarrow> bool" where
  "hourField h = ((length h = 1 \<or> length h = 2) \<and> list_all isDigit h \<and> digitsValue h \<le> 23)"

definition sixtyField :: "string \<Rightarrow> bool" where
  "sixtyField m = (length m = 2 \<and> list_all isDigit m \<and> digitsValue m \<le> 59)"

definition clockForm :: "string \<Rightarrow> bool" where
  "clockForm s =
     (case splitOn CHR '':'' s of
        [h, m] \<Rightarrow> hourField h \<and> sixtyField m
      | [h, m, sec] \<Rightarrow> hourField h \<and> sixtyField m \<and> sixtyField sec
      | _ \<Rightarrow> False)"

text \<open>
  Reading the output of a merge back as rows, user by user, to merge it again.
\<close>

definition rowOf :: "string \<Rightarrow> BusyInterval \<Rightarrow> BusyBlockRow" where
  "rowOf userId i = \<lparr>user_id = userId, start_time = start_time i, end_time = end_time i\<rparr>"

definition toRows :: "BusyInterval list jsmap \<Rightarrow> BusyBlockRow list" where
  "toRows mergedByUser =
     concat (map (\<lambda>(userId, intervals). map (rowOf userId) intervals) mergedByUser)"

text \<open>The merged intervals of one user, none when the user has no entry.\<close>

definition intervalsOf :: "BusyInterval list jsmap \<Rightarrow> string \<Rightarrow> BusyInterval list" where
  "intervalsOf mergedByUser userId =
     (case map_of mergedByUser userId of None \<Rightarrow> [] | Some intervals \<Rightarrow> intervals)"

text \<open>
  An interval contains the reference minute when \<open>startMinutes \<le> ref < endMinutes\<close>;
  it lies after it when \<open>startMinutes > ref\<close>.
\<close>

definition containsRef :: "jsnum \<Rightarrow> BusyInterval \<Rightarrow> bool" where
  "containsRef ref i = (jsLessEq (Some (startMinutes i)) ref \<and> jsLess ref (Some (endMinutes i)))"

definition startsAfter :: "jsnum \<Rightarrow> BusyInterval \<Rightarrow> bool" where
  "startsAfter ref i = jsLess ref (Some (startMinutes i))"

text \<open>
  The recurrence weekday-set of an event in the words of the specification. The
  descriptor is a single value, an object carrying a weekday field, or a list of such
  objects and values. Each element contributes its weekday code, in the scale of the
  rule (Monday is 0): a value is its own code, an object contributes the code in its
  weekday field; an object without the field, or a null, contributes nothing.
\<close>

fun codesOfEntry :: "WeekdayEntry \<Rightarrow> int list" where
  "codesOfEntry (NumberEntry n) = [n]"
| "codesOfEntry (ObjectEntry (Some w)) = [w]"
| "codesOfEntry (ObjectEntry None) = []"
| "codesOfEntry NullEntry = []"

definition recurrenceCodes :: "ParsedEvent \<Rightarrow> int list" where
  "recurrenceCodes event =
     (case rrule event of
        None \<Rightarrow> []
      | Some r \<Rightarrow>
          (case options r of
             None \<Rightarrow> []
           | Some opts \<Rightarrow>
               (case RRuleOptions.byweekday opts of
                  None \<Rightarrow> []
                | Some (ArrayOf es) \<Rightarrow> concat (map codesOfEntry es)
                | Some (Single x) \<Rightarrow> codesOfEntry x)))"

text \<open>
  The weekday of the specification's TimeCodec, read off the short English name of the
  day that the formatter of the fixed time zone gives for an instant: Monday is 1 and
  Sunday is 7; any other text is no weekday.
\<close>

definition weekdayOfLabel :: "string \<Rightarrow> int option" where
  "weekdayOfLabel l =
     (if l = ''Mon'' then Some 1
      else if l = ''Tue'' then Some 2
      else if l = ''Wed'' then Some 3
      else if l = ''Thu'' then Some 4
      else if l = ''Fri'' then Some 5
      else if l = ''Sat'' then Some 6
      else if l = ''Sun'' then Some 7
      else None)"

section \<open>Auxiliary predicates\<close>

definition separated :: "BusyInterval list \<Rightarrow> bool" where
  "separated xs = successively (\<lambda>a b. startMinutes b > endMinutes a) xs"

definition proper :: "BusyInterval \<Rightarrow> bool" where
  "proper i = (endMinutes i > startMinutes i)"

definition consistent :: "js_runtime \<Rightarrow> BusyInterval \<Rightarrow> bool" where
  "consistent rt i =
     (timeToMinutes rt (start_time i) = Some (startMinutes i) \<and>
      timeToMinutes rt (end_time i) = Some (endMinutes i))"

definition validBlock :: "js_runtime \<Rightarrow> BusyBlockRow \<Rightarrow> bool" where
  "validBlock rt b =
     jsLess (timeToMinutes rt (BusyBlockRow.start_time b)) (timeToMinutes rt (BusyBlockRow.end_time b))"

definition blockInterval :: "js_runtime \<Rightarrow> BusyBlockRow \<Rightarrow> BusyInterval" where
  "blockInterval rt b =
     \<lparr>startMinutes = the (timeToMinutes rt (BusyBlockRow.start_time b)),
      endMinutes = the (timeToMinutes rt (BusyBlockRow.end_time b)),
      start_time = BusyBlockRow.start_time b,
      end_time = BusyBlockRow.end_time b\<rparr>"

definition goodGroups :: "js_runtime \<Rightarrow> BusyInterval list jsmap \<Rightarrow> bool" where
  "goodGroups rt g =
     (distinct (map fst g) \<and>
      list_all (\<lambda>(u, ivs). ivs \<noteq> [] \<and> list_all proper ivs \<and> list_all (consistent rt) ivs) g)"

text \<open>
  What the scan does to the entry of one user in \<open>busyMap\<close> and in \<open>nextBusyMap\<close>
  when it meets one interval of that user, and the entries the loop over the members
  pushes.
\<close>

definition busyStep ::
  "js_runtime \<Rightarrow> jsnum \<Rightarrow> BusyMapEntry option \<Rightarrow> BusyInterval \<Rightarrow> BusyMapEntry option" where
  "busyStep rt ref cur i =
     (if containsRef ref i \<and> (cur = None \<or> endMinutes i > BusyMapEntry.endMinutes (the cur))
      then Some \<lparr>BusyMapEntry.busy_until = formatTime rt (end_time i), endMinutes = endMinutes i\<rparr>
      else cur)"

definition nextStep ::
  "js_runtime \<Rightarrow> jsnum \<Rightarrow> NextBusyEntry option \<Rightarrow> BusyInterval \<Rightarrow> NextBusyEntry option" where
  "nextStep rt ref cur i =
     (if startsAfter ref i \<and> (cur = None \<or> startMinutes i < NextBusyEntry.startMinutes (the cur))
      then Some \<lparr>NextBusyEntry.startMinutes = startMinutes i,
                  startLabel = formatTime rt (start_time i)\<rparr>
      else cur)"

definition unknownEntryOf :: "MemberRow \<Rightarrow> UnknownEntry" where
  "unknownEntryOf m = \<lparr>UnknownEntry.user_id = MemberRow.user_id m, display_name = memberName m\<rparr>"

definition busyEntryOf :: "BusyMapEntry jsmap \<Rightarrow> MemberRow \<Rightarrow> BusyEntry" where
  "busyEntryOf busyMap m =
     \<lparr>UnknownEntry.user_id = MemberRow.user_id m, display_name = memberName m,
      BusyEntry.busy_until = BusyMapEntry.busy_until (the (map_of busyMap (MemberRow.user_id m)))\<rparr>"

definition freeEntryOf :: "NextBusyEntry jsmap \<Rightarrow> MemberRow \<Rightarrow> FreeEntry" where
  "freeEntryOf nextBusyMap m =
     \<lparr>UnknownEntry.user_id = MemberRow.user_id m, display_name = memberName m,
      free_until = map_option startLabel (map_of nextBusyMap (MemberRow.user_id m))\<rparr>"

text \<open>
  The invariants of the two folds of the scan: the entry kept for a user is that of a
  containing interval with the greatest end, respectively of an interval after the
  reference minute with the least start, among the intervals met so far.
\<close>

definition busyEntryFor :: "js_runtime \<Rightarrow> BusyInterval \<Rightarrow> BusyMapEntry" where
  "busyEntryFor rt i =
     \<lparr>BusyMapEntry.busy_until = formatTime rt (end_time i), endMinutes = endMinutes i\<rparr>"

definition nextEntryFor :: "js_runtime \<Rightarrow> BusyInterval \<Rightarrow> NextBusyEntry" where
  "nextEntryFor rt i =
     \<lparr>NextBusyEntry.startMinutes = startMinutes i, startLabel = formatTime rt (start_time i)\<rparr>"

definition busyInv ::
  "js_runtime \<Rightarrow> jsnum \<Rightarrow> BusyMapEntry option \<Rightarrow> BusyInterval list \<Rightarrow> bool" where
  "busyInv rt ref cur xs =
     (case cur of
        None \<Rightarrow> (\<forall>i \<in> set xs. \<not> containsRef ref i)
      | Some e \<Rightarrow>
          (\<exists>i \<in> set xs. containsRef ref i \<and> e = busyEntryFor rt i
             \<and> (\<forall>j \<in> set xs. containsRef ref j \<longrightarrow> endMinutes j \<le> endMinutes i)))"

definition nextInv ::
  "js_runtime \<Rightarrow> jsnum \<Rightarrow> NextBusyEntry option \<Rightarrow> BusyInterval list \<Rightarrow> bool" where
  "nextInv rt ref cur xs =
     (case cur of
        None \<Rightarrow> (\<forall>i \<in> set xs. \<not> startsAfter ref i)
      | Some e \<Rightarrow>
          (\<exists>i \<in> set xs. startsAfter ref i \<and> e = nextEntryFor rt i
             \<and> (\<forall>j \<in> set xs. startsAfter ref j \<longrightarrow> startMinutes i \<le> startMinutes j)))"

section \<open>Example inputs\<close>

text \<open>
  Busy blocks of two users for one weekday: user \<open>u\<close> has two back-to-back blocks and
  a later one, user \<open>v\<close> has a block that ends before it starts.
\<close>

definition exampleBlocks :: "BusyBlockRow list" where
  "exampleBlocks =
     [\<lparr>user_id = ''u'', start_time = ''13:00:00'', end_time = ''15:00:00''\<rparr>,
      \<lparr>user_id = ''v'', start_time = ''13:00:00'', end_time = ''12:00:00''\<rparr>,
      \<lparr>user_id = ''u'', start_time = ''10:00:00'', end_time = ''13:00:00''\<rparr>,
      \<lparr>user_id = ''u'', start_time = ''16:00:00'', end_time = ''17:00:00''\<rparr>]"

definition exampleMerged :: "BusyInterval list" where
  "exampleMerged =
     [\<lparr>startMinutes = 600, endMinutes = 900, start_time = ''10:00:00'', end_time = ''15:00:00''\<rparr>,
      \<lparr>startMinutes = 960, endMinutes = 1020, start_time = ''16:00:00'', end_time = ''17:00:00''\<rparr>]"

text \<open>
  The shape of a string the regular expression of \<open>parseTimeParam\<close> matches, group
  by group, and \<^verbatim>\<open>parts.join(c)\<close>, the inverse of \<open>splitOn\<close>.
\<close>

definition hourGroup :: "string \<Rightarrow> bool" where
  "hourGroup h =
     ((\<exists>d. isDigit d \<and> h = [d])
      \<or> (\<exists>a d. a \<in> set ''01'' \<and> isDigit d \<and> h = [a, d])
      \<or> (\<exists>b. b \<in> set ''0123'' \<and> h = [CHR ''2'', b]))"

definition sixtyGroup :: "string \<Rightarrow> bool" where
  "sixtyGroup m = (\<exists>a b. a \<in> set ''012345'' \<and> isDigit b \<and> m = [a, b])"

fun joinWith :: "char \<Rightarrow> string list \<Rightarrow> string" where
  "joinWith c [] = []"
| "joinWith c [p] = p"
| "joinWith c (p # q # ps) = p @ c # joinWith c (q # ps)"

text \<open>
  Parsed calendar events. The instants are milliseconds since the epoch:
  1704816000000 is Tuesday 9 January 2024, 16:00 UTC, which is 10:00 in Chicago;
  1704902400000 is the same time on Wednesday 10 January; 1704862800000 is Tuesday
  9 January, 23:00 in Chicago, and 1704870000000 is 01:00 on the Wednesday. The rule
  engine counts weekdays from Monday = 0, so Tuesday and Thursday are 1 and 3, Saturday
  and Sunday are 5 and 6.
\<close>

definition recurringTueThu :: ParsedEvent where
  "recurringTueThu =
     \<lparr>type = Some ''VEVENT'', start = Some 1704816000000, end = Some 1704819600000,
      datetype = Some ''date-time'',
      rrule = Some \<lparr>options = Some \<lparr>byweekday = Some (ArrayOf [NumberEntry 1, NumberEntry 3])\<rparr>\<rparr>\<rparr>"

definition oneOffWed :: ParsedEvent where
  "oneOffWed =
     \<lparr>type = Some ''VEVENT'', start = Some 1704902400000, end = Some 1704906000000,
      datetype = Some ''date-time'', rrule = None\<rparr>"

definition overnightEvent :: ParsedEvent where
  "overnightEvent =
     \<lparr>type = Some ''VEVENT'', start = Some 1704862800000, end = Some 1704870000000,
      datetype = Some ''date-time'', rrule = None\<rparr>"

text \<open>
  Events with a recurrence descriptor of each shape: a single number (Monday), a single
  object with a weekday field (Friday), a list that mixes objects and numbers and
  repeats Tuesday, and a list whose elements carry no weekday code at all.
\<close>

definition withByWeekday :: "ByWeekday \<Rightarrow> ParsedEvent" where
  "withByWeekday bw =
     \<lparr>type = Some ''VEVENT'', start = Some 1704816000000, end = Some 1704819600000,
      datetype = Some ''date-time'',
      rrule = Some \<lparr>options = Some \<lparr>byweekday = Some bw\<rparr>\<rparr>\<rparr>"

definition singleNumberEvent :: ParsedEvent where
  "singleNumberEvent = withByWeekday (Single (NumberEntry 0))"

definition singleObjectEvent :: ParsedEvent where
  "singleObjectEvent = withByWeekday (Single (ObjectEntry (Some 4)))"

definition mixedListEvent :: ParsedEvent where
  "mixedListEvent =
     withByWeekday (ArrayOf [ObjectEntry (Some 1), NumberEntry 3, NumberEntry 1,
                             ObjectEntry None, NullEntry, ObjectEntry (Some 3)])"

definition codelessListEvent :: ParsedEvent where
  "codelessListEvent = withByWeekday (ArrayOf [ObjectEntry None, NullEntry])"

text \<open>
  One-off events at 10:00 in Chicago on each day of the week from Monday 8 January to
  Sunday 14 January 2024.
\<close>

definition oneOffAt :: "Date \<Rightarrow> ParsedEvent" where
  "oneOffAt d =
     \<lparr>type = Some ''VEVENT'', start = Some d, end = Some (d + 3600000),
      datetype = Some ''date-time'', rrule = None\<rparr>"

definition weekOfInstants :: "Date list" where
  "weekOfInstants =
     [1704729600000, 1704816000000, 1704902400000, 1704988800000, 1705075200000,
      1705161600000, 1705248000000]"

definition weekendEvent :: ParsedEvent where
  "weekendEvent =
     \<lparr>type = Some ''VEVENT'', start = Some 1704816000000, end = Some 1704819600000,
      datetype = Some ''date-time'',
      rrule = Some \<lparr>options = Some
                \<lparr>byweekday = Some (ArrayOf [ObjectEntry (Some 5), NumberEntry 6, NumberEntry 5])\<rparr>\<rparr>\<rparr>"

text \<open>
  A group of four members, three of whom have uploaded a calendar (\<open>u3\<close> has not,
  although rows exist for \<open>u3\<close>), the rows of one weekday, and two readings of the
  clock: a Tuesday at 08:15 and a Saturday at 12:30.
\<close>

definition exampleMembers :: "MemberRow list" where
  "exampleMembers =
     [\<lparr>MemberRow.user_id = ''u1'', profiles = Some \<lparr>Profile.display_name = Some '' Ann ''\<rparr>\<rparr>,
      \<lparr>MemberRow.user_id = ''u2'', profiles = None\<rparr>,
      \<lparr>MemberRow.user_id = ''u3'', profiles = None\<rparr>,
      \<lparr>MemberRow.user_id = ''u4'', profiles = Some \<lparr>Profile.display_name = None\<rparr>\<rparr>]"

definition exampleUploads :: "string list DbResult" where
  "exampleUploads = \<lparr>data = Some [''u1'', ''u2'', ''u4''], error = None\<rparr>"

definition exampleRows :: "BusyBlockRow list" where
  "exampleRows =
     [\<lparr>user_id = ''u1'', start_time = ''12:00:00'', end_time = ''13:00:00''\<rparr>,
      \<lparr>user_id = ''u2'', start_time = ''14:30:00'', end_time = ''15:00:00''\<rparr>,
      \<lparr>user_id = ''u3'', start_time = ''12:00:00'', end_time = ''13:00:00''\<rparr>]"

definition exampleFetch :: "int \<Rightarrow> string list \<Rightarrow> BusyBlockRow list DbResult" where
  "exampleFetch day userIds = \<lparr>data = Some exampleRows, error = None\<rparr>"

definition tuesdayMorning :: "(string \<times> string) list" where
  "tuesdayMorning =
     [(''weekday'', ''Tue''), (''literal'', '' ''), (''hour'', ''08''), (''literal'', '':''),
      (''minute'', ''15'')]"

definition saturdayNoon :: "(string \<times> string) list" where
  "saturdayNoon =
     [(''weekday'', ''Sat''), (''literal'', '' ''), (''hour'', ''12''), (''literal'', '':''),
      (''minute'', ''30'')]"

section \<open>Lemmas on the interval merger\<close>

lemma set_insertBy: "set (insertBy cmp x xs) = insert x (set xs)"
  by (induction xs) auto

lemma set_sortBy: "set (sortBy cmp xs) = set xs"
  unfolding sortBy_def by (induction xs) (simp_all add: set_insertBy)

lemma mergeStep_snoc:
  "mergeStep (ys @ [l]) x =
     (if startMinutes x \<le> endMinutes l then
        (if endMinutes x > endMinutes l then
           ys @ [l\<lparr>endMinutes := endMinutes x, BusyInterval.end_time := BusyInterval.end_time x\<rparr>]
         else ys @ [l])
      else ys @ [l, x])"
  by (simp add: mergeStep_def Let_def)

lemma mergeStep_Nil: "mergeStep [] x = [x]"
  by (simp add: mergeStep_def)

lemma separated_snoc:
  "separated (ys @ [l]) \<longleftrightarrow> separated ys \<and> (ys = [] \<or> startMinutes l > endMinutes (last ys))"
  by (auto simp: separated_def successively_append_iff)

lemma mergeStep_separated:
  assumes "separated merged"
  shows "separated (mergeStep merged x)"
proof (cases merged rule: rev_cases)
  case Nil
  then show ?thesis by (simp add: mergeStep_Nil separated_def)
next
  case (snoc ys l)
  with assms have ys: "separated ys" and l: "ys = [] \<or> startMinutes l > endMinutes (last ys)"
    by (simp_all add: separated_snoc)
  show ?thesis
  proof (cases "startMinutes x \<le> endMinutes l")
    case True
    with ys l snoc show ?thesis by (simp add: mergeStep_snoc separated_snoc)
  next
    case False
    have "separated ((ys @ [l]) @ [x])"
      unfolding separated_snoc[of "ys @ [l]"] using False assms snoc by simp
    with False snoc show ?thesis by (simp add: mergeStep_snoc)
  qed
qed

lemma mergeStep_proper:
  assumes "list_all proper merged" and "proper x"
  shows "list_all proper (mergeStep merged x)"
proof (cases merged rule: rev_cases)
  case Nil
  with assms show ?thesis by (simp add: mergeStep_Nil)
next
  case (snoc ys l)
  with assms show ?thesis
    by (auto simp: mergeStep_snoc proper_def)
qed

lemma mergeStep_consistent:
  assumes "list_all (consistent rt) merged" and "consistent rt x"
  shows "list_all (consistent rt) (mergeStep merged x)"
proof (cases merged rule: rev_cases)
  case Nil
  with assms show ?thesis by (simp add: mergeStep_Nil)
next
  case (snoc ys l)
  with assms show ?thesis
    by (auto simp: mergeStep_snoc consistent_def)
qed

lemma foldl_mergeStep_inv:
  assumes "separated merged" "list_all proper merged" "list_all proper xs"
  shows "separated (foldl mergeStep merged xs) \<and> list_all proper (foldl mergeStep merged xs)"
  using assms
proof (induction xs arbitrary: merged)
  case Nil
  then show ?case by simp
next
  case (Cons x xs)
  then show ?case by (simp add: mergeStep_separated mergeStep_proper)
qed

lemma foldl_mergeStep_consistent:
  assumes "list_all (consistent rt) merged" "list_all (consistent rt) xs"
  shows "list_all (consistent rt) (foldl mergeStep merged xs)"
  using assms
  by (induction xs arbitrary: merged) (simp_all add: mergeStep_consistent)

lemma mergeSorted_separated: "list_all proper xs \<Longrightarrow> separated (mergeSorted xs)"
  using foldl_mergeStep_inv[of "[]" xs] by (simp add: mergeSorted_def separated_def)

lemma mergeSorted_proper: "list_all proper xs \<Longrightarrow> list_all proper (mergeSorted xs)"
  using foldl_mergeStep_inv[of "[]" xs] by (simp add: mergeSorted_def separated_def)

lemma mergeSorted_consistent:
  "list_all (consistent rt) xs \<Longrightarrow> list_all (consistent rt) (mergeSorted xs)"
  using foldl_mergeStep_consistent[of rt "[]" xs] by (simp add: mergeSorted_def)

lemma separated_sorted:
  assumes "separated xs" "list_all proper xs"
  shows "sorted_wrt (\<lambda>a b. startMinutes a < startMinutes b) xs"
proof -
  have "successively (\<lambda>a b. startMinutes a < startMinutes b) xs"
    using assms
  proof (induction xs rule: induct_list012)
    case (3 x y zs)
    then show ?case by (auto simp: separated_def proper_def)
  qed simp_all
  moreover have "transp (\<lambda>a b :: BusyInterval. startMinutes a < startMinutes b)"
    by (auto simp: transp_def)
  ultimately show ?thesis
    by (simp add: successively_conv_sorted_wrt)
qed

lemma groupStep_alt:
  "groupStep rt g b =
     (if validBlock rt b then
        AList.update (BusyBlockRow.user_id b)
          ((case map_of g (BusyBlockRow.user_id b) of None \<Rightarrow> [] | Some e \<Rightarrow> e) @ [blockInterval rt b]) g
      else g)"
  by (auto simp: groupStep_def validBlock_def blockInterval_def Let_def Number_isFinite_def
      jsLess_def jsLessEq_def split: option.splits)

lemma blockInterval_proper: "validBlock rt b \<Longrightarrow> proper (blockInterval rt b)"
  by (auto simp: validBlock_def blockInterval_def proper_def jsLess_def split: option.splits)

lemma blockInterval_consistent: "validBlock rt b \<Longrightarrow> consistent rt (blockInterval rt b)"
  by (auto simp: validBlock_def blockInterval_def consistent_def jsLess_def split: option.splits)

lemma list_all_update:
  assumes "list_all P al" "P (k, v)"
  shows "list_all P (AList.update k v al)"
  using assms by (induction al) auto

lemma map_of_list_all:
  "list_all P al \<Longrightarrow> map_of al k = Some v \<Longrightarrow> P (k, v)"
  by (induction al) (auto split: if_splits)

lemma groupStep_good:
  assumes "goodGroups rt g"
  shows "goodGroups rt (groupStep rt g b)"
proof (cases "validBlock rt b")
  case False
  with assms show ?thesis by (simp add: groupStep_alt)
next
  case True
  let ?u = "BusyBlockRow.user_id b"
  let ?e = "case map_of g ?u of None \<Rightarrow> [] | Some e \<Rightarrow> e"
  have e: "list_all proper ?e \<and> list_all (consistent rt) ?e"
  proof (cases "map_of g ?u")
    case None
    then show ?thesis by simp
  next
    case (Some e)
    with assms map_of_list_all[of _ g ?u e] show ?thesis
      by (auto simp: goodGroups_def)
  qed
  with True assms show ?thesis
    by (auto simp: groupStep_alt goodGroups_def distinct_update blockInterval_proper
        blockInterval_consistent intro!: list_all_update)
qed

lemma foldl_groupStep_good:
  "goodGroups rt g \<Longrightarrow> goodGroups rt (foldl (groupStep rt) g bs)"
  by (induction bs arbitrary: g) (simp_all add: groupStep_good)

lemma groupBlocks_good: "goodGroups rt (groupBlocks rt blocks)"
  unfolding groupBlocks_def by (rule foldl_groupStep_good) (simp add: goodGroups_def)

lemma update_fresh: "k \<notin> fst ` set al \<Longrightarrow> AList.update k v al = al @ [(k, v)]"
  by (induction al) auto

lemma foldl_update_fresh:
  assumes "distinct (map fst g)" "fst ` set acc \<inter> fst ` set g = {}"
  shows "foldl (\<lambda>m (u, ivs). AList.update u (f ivs) m) acc g = acc @ map (\<lambda>(u, ivs). (u, f ivs)) g"
  using assms
proof (induction g arbitrary: acc)
  case Nil
  then show ?case by simp
next
  case (Cons p g)
  obtain u ivs where p: "p = (u, ivs)" by (cases p)
  from Cons.prems p have fresh: "u \<notin> fst ` set acc" by auto
  have "fst ` set (acc @ [(u, f ivs)]) \<inter> fst ` set g = {}"
    using Cons.prems p by auto
  with Cons.IH[of "acc @ [(u, f ivs)]"] Cons.prems p fresh show ?case
    by (simp add: update_fresh)
qed

lemma mergeBusyIntervals_map:
  "mergeBusyIntervals rt blocks =
     map (\<lambda>(u, ivs). (u, mergeSorted (sortBy compareIntervals ivs))) (groupBlocks rt blocks)"
  using groupBlocks_good[of rt blocks]
  by (simp add: mergeBusyIntervals_def Let_def foldl_update_fresh goodGroups_def)

lemma mergeBusyIntervals_entry:
  assumes "map_of (mergeBusyIntervals rt blocks) u = Some out"
  shows "\<exists>ivs. out = mergeSorted (sortBy compareIntervals ivs) \<and> ivs \<noteq> []
             \<and> list_all proper ivs \<and> list_all (consistent rt) ivs"
proof -
  from assms have "(u, out) \<in> set (mergeBusyIntervals rt blocks)"
    by (rule map_of_SomeD)
  then obtain ivs where mem: "(u, ivs) \<in> set (groupBlocks rt blocks)"
    and out: "out = mergeSorted (sortBy compareIntervals ivs)"
    by (auto simp: mergeBusyIntervals_map)
  from mem groupBlocks_good[of rt blocks] have "ivs \<noteq> [] \<and> list_all proper ivs \<and> list_all (consistent rt) ivs"
    by (auto simp: goodGroups_def list_all_iff)
  with out show ?thesis by blast
qed

lemma toRows_Cons: "toRows ((u, ivs) # m) = map (rowOf u) ivs @ toRows m"
  by (simp add: toRows_def)

lemma toRows_Nil: "toRows [] = []"
  by (simp add: toRows_def)

lemma rowOf_valid: "proper i \<Longrightarrow> consistent rt i \<Longrightarrow> validBlock rt (rowOf u i)"
  by (simp add: validBlock_def rowOf_def consistent_def proper_def jsLess_def)

lemma rowOf_interval: "consistent rt i \<Longrightarrow> blockInterval rt (rowOf u i) = i"
  by (simp add: blockInterval_def rowOf_def consistent_def)

lemma rowOf_user: "BusyBlockRow.user_id (rowOf u i) = u"
  by (simp add: rowOf_def)

lemma update_last_key: "u \<notin> fst ` set G \<Longrightarrow> AList.update u v (G @ [(u, w)]) = G @ [(u, v)]"
  by (induction G) auto

lemma map_of_last_key: "u \<notin> fst ` set G \<Longrightarrow> map_of (G @ [(u, w)]) u = Some w"
  by (induction G) auto

lemma map_of_fresh: "u \<notin> fst ` set G \<Longrightarrow> map_of G u = None"
  by (simp add: map_of_eq_None_iff)

lemma regroup_user_tail:
  assumes "u \<notin> fst ` set G" "list_all proper ivs" "list_all (consistent rt) ivs"
  shows "foldl (groupStep rt) (G @ [(u, acc)]) (map (rowOf u) ivs) = G @ [(u, acc @ ivs)]"
  using assms
proof (induction ivs arbitrary: acc)
  case Nil
  then show ?case by simp
next
  case (Cons i ivs)
  from Cons.prems have v: "validBlock rt (rowOf u i)" and b: "blockInterval rt (rowOf u i) = i"
    by (simp_all add: rowOf_valid rowOf_interval)
  have m: "map_of (G @ [(u, acc)]) u = Some acc"
    using Cons.prems(1) by (rule map_of_last_key)
  have step: "groupStep rt (G @ [(u, acc)]) (rowOf u i) = G @ [(u, acc @ [i])]"
    unfolding groupStep_alt rowOf_user using v b m Cons.prems(1)
    by (simp add: update_last_key del: map_of_append)
  from Cons.IH[of "acc @ [i]"] Cons.prems step show ?case by simp
qed

lemma regroup_user:
  assumes "u \<notin> fst ` set G" "ivs \<noteq> []" "list_all proper ivs" "list_all (consistent rt) ivs"
  shows "foldl (groupStep rt) G (map (rowOf u) ivs) = G @ [(u, ivs)]"
proof -
  from assms(2) obtain i rest where ivs: "ivs = i # rest" by (cases ivs) auto
  with assms have step: "groupStep rt G (rowOf u i) = G @ [(u, [i])]"
    by (simp add: groupStep_alt rowOf_valid rowOf_interval rowOf_user update_fresh map_of_fresh)
  from regroup_user_tail[of u G rest rt "[i]"] assms ivs step show ?thesis by simp
qed

lemma regroup_all:
  assumes "goodGroups rt (G @ M)"
  shows "foldl (groupStep rt) G (toRows M) = G @ M"
  using assms
proof (induction M arbitrary: G)
  case Nil
  then show ?case by (simp add: toRows_Nil)
next
  case (Cons p M)
  obtain u ivs where p: "p = (u, ivs)" by (cases p)
  from Cons.prems p have fresh: "u \<notin> fst ` set G" and ne: "ivs \<noteq> []"
    and pr: "list_all proper ivs" and co: "list_all (consistent rt) ivs"
    by (auto simp: goodGroups_def)
  from Cons.prems p have "goodGroups rt ((G @ [(u, ivs)]) @ M)" by simp
  from Cons.IH[OF this] regroup_user[OF fresh ne pr co] p show ?case
    by (simp add: toRows_Cons)
qed

lemma mergeStep_nonempty: "mergeStep merged x \<noteq> []"
  by (simp add: mergeStep_def Let_def)

lemma foldl_mergeStep_nonempty: "merged \<noteq> [] \<Longrightarrow> foldl mergeStep merged xs \<noteq> []"
  by (induction xs arbitrary: merged) (simp_all add: mergeStep_nonempty)

lemma mergeSorted_nonempty: "xs \<noteq> [] \<Longrightarrow> mergeSorted xs \<noteq> []"
  by (cases xs) (simp_all add: mergeSorted_def foldl_mergeStep_nonempty mergeStep_nonempty)

lemma sortBy_nonempty: "xs \<noteq> [] \<Longrightarrow> sortBy cmp xs \<noteq> []"
  using set_sortBy[of cmp xs] by (cases "sortBy cmp xs") auto

lemma merged_group_good:
  assumes "ivs \<noteq> []" "list_all proper ivs" "list_all (consistent rt) ivs"
  shows "mergeSorted (sortBy compareIntervals ivs) \<noteq> []
       \<and> list_all proper (mergeSorted (sortBy compareIntervals ivs))
       \<and> list_all (consistent rt) (mergeSorted (sortBy compareIntervals ivs))"
proof -
  let ?s = "sortBy compareIntervals ivs"
  from assms have "?s \<noteq> []" "list_all proper ?s" "list_all (consistent rt) ?s"
    by (simp_all add: sortBy_nonempty list_all_iff set_sortBy)
  then show ?thesis
    by (simp add: mergeSorted_nonempty mergeSorted_proper mergeSorted_consistent)
qed

lemma goodGroups_map:
  assumes "goodGroups rt g"
  shows "goodGroups rt (map (\<lambda>(u, ivs). (u, mergeSorted (sortBy compareIntervals ivs))) g)"
  using assms
proof (induction g)
  case Nil
  then show ?case by (simp add: goodGroups_def)
next
  case (Cons p g)
  obtain u ivs where p: "p = (u, ivs)" by (cases p)
  from Cons.prems p have tl: "goodGroups rt g" and fresh: "u \<notin> fst ` set g"
    and hd: "ivs \<noteq> []" "list_all proper ivs" "list_all (consistent rt) ivs"
    by (auto simp: goodGroups_def)
  from Cons.IH[OF tl] merged_group_good[OF hd] fresh p show ?case
    by (force simp: goodGroups_def)
qed

lemma mergeBusyIntervals_good: "goodGroups rt (mergeBusyIntervals rt blocks)"
  unfolding mergeBusyIntervals_map by (rule goodGroups_map) (rule groupBlocks_good)

lemma insertBy_head: "ys = [] \<or> cmp x (hd ys) \<le> 0 \<Longrightarrow> insertBy cmp x ys = x # ys"
  by (cases ys) auto

lemma sortBy_Cons: "sortBy cmp (x # xs) = insertBy cmp x (sortBy cmp xs)"
  by (simp add: sortBy_def)

lemma sortBy_separated:
  assumes "separated xs" "list_all proper xs"
  shows "sortBy compareIntervals xs = xs"
  using assms
proof (induction xs)
  case Nil
  then show ?case by (simp add: sortBy_def)
next
  case (Cons x xs)
  from Cons.prems have tl: "separated xs" "list_all proper xs"
    by (auto simp: separated_def successively_Cons)
  have hd: "xs = [] \<or> compareIntervals x (hd xs) \<le> 0"
  proof (cases xs)
    case Nil
    then show ?thesis by simp
  next
    case (Cons y ys)
    with Cons.prems have "startMinutes x < startMinutes y"
      by (auto simp: separated_def proper_def)
    with Cons show ?thesis by (simp add: compareIntervals_def)
  qed
  from Cons.IH[OF tl] hd show ?case
    by (simp add: sortBy_Cons insertBy_head)
qed

lemma foldl_mergeStep_separated:
  assumes "separated (acc @ xs)"
  shows "foldl mergeStep acc xs = acc @ xs"
  using assms
proof (induction xs arbitrary: acc)
  case Nil
  then show ?case by simp
next
  case (Cons x xs)
  have step: "mergeStep acc x = acc @ [x]"
  proof (cases acc rule: rev_cases)
    case Nil
    then show ?thesis by (simp add: mergeStep_Nil)
  next
    case (snoc ys l)
    with Cons.prems have "endMinutes l < startMinutes x"
      by (simp add: separated_def successively_append_iff)
    with snoc show ?thesis by (simp add: mergeStep_snoc)
  qed
  from Cons.prems have "separated ((acc @ [x]) @ xs)" by simp
  from Cons.IH[OF this] step show ?case by simp
qed

lemma mergeSorted_separated_id: "separated xs \<Longrightarrow> mergeSorted xs = xs"
  using foldl_mergeStep_separated[of "[]" xs] by (simp add: mergeSorted_def)

lemma foldl_groupStep_filter:
  "foldl (groupStep rt) g (filter (validBlock rt) bs) = foldl (groupStep rt) g bs"
  by (induction bs arbitrary: g) (simp_all add: groupStep_alt)

lemma timeToMinutes_finite: "\<exists>q. timeToMinutes rt s = Some q"
  by (simp add: timeToMinutes_def Let_def)

lemma validBlock_iff:
  "validBlock rt b \<longleftrightarrow>
     \<not> jsLessEq (timeToMinutes rt (BusyBlockRow.end_time b)) (timeToMinutes rt (BusyBlockRow.start_time b))"
  using timeToMinutes_finite[of rt "BusyBlockRow.start_time b"]
    timeToMinutes_finite[of rt "BusyBlockRow.end_time b"]
  by (auto simp: validBlock_def jsLess_def jsLessEq_def)

lemma validBlock_eq:
  "validBlock rt =
     (\<lambda>b. \<not> jsLessEq (timeToMinutes rt (BusyBlockRow.end_time b))
                         (timeToMinutes rt (BusyBlockRow.start_time b)))"
  by (rule ext) (rule validBlock_iff)

lemma mergeBusyIntervals_filter:
  "mergeBusyIntervals rt (filter (validBlock rt) blocks) = mergeBusyIntervals rt blocks"
  by (simp add: mergeBusyIntervals_def groupBlocks_def foldl_groupStep_filter)

lemma separated_all_pairs:
  assumes "separated xs" "list_all proper xs"
  shows "sorted_wrt (\<lambda>a b. endMinutes a < startMinutes b) xs"
proof -
  have "successively (\<lambda>a b. endMinutes a < startMinutes b) xs
          \<longleftrightarrow> sorted_wrt (\<lambda>a b. endMinutes a < startMinutes b) xs"
  proof (rule successively_iff_sorted_wrt_strong)
    fix x y z :: BusyInterval
    assume "y \<in> set xs" "endMinutes x < startMinutes y" "endMinutes y < startMinutes z"
    moreover from \<open>y \<in> set xs\<close> assms(2) have "startMinutes y < endMinutes y"
      by (simp add: list_all_iff proper_def)
    ultimately show "endMinutes x < startMinutes z" by simp
  qed
  with assms(1) show ?thesis by (simp add: separated_def)
qed

section \<open>The claims on the interval merger\<close>

text \<open>
  Claim C1. For every list of busy-block rows and every user, the merged intervals of
  that user are sorted ascending by \<open>startMinutes\<close>, consecutive intervals \<open>a, b\<close>
  satisfy \<open>startMinutes b > endMinutes a\<close> (and so does every pair \<open>a\<close> before
  \<open>b\<close>: the intervals are pairwise disjoint and not adjacent), and every interval
  has \<open>endMinutes > startMinutes\<close>; a block whose converted end is at most its
  converted start does not contribute: removing such blocks from the input leaves the
  output unchanged.
\<close>

theorem merged_sorted_separated:
  assumes "map_of (mergeBusyIntervals rt blocks) u = Some out"
  shows "sorted (map startMinutes out)
       \<and> successively (\<lambda>a b. startMinutes b > endMinutes a) out
       \<and> sorted_wrt (\<lambda>a b. startMinutes b > endMinutes a) out
       \<and> (\<forall>i \<in> set out. endMinutes i > startMinutes i)
       \<and> mergeBusyIntervals rt
           (filter (\<lambda>b. \<not> jsLessEq (timeToMinutes rt (BusyBlockRow.end_time b))
                                    (timeToMinutes rt (BusyBlockRow.start_time b))) blocks)
         = mergeBusyIntervals rt blocks"
proof -
  from mergeBusyIntervals_entry[OF assms] obtain ivs where
    out: "out = mergeSorted (sortBy compareIntervals ivs)" and p: "list_all proper ivs"
    by blast
  from p have ps: "list_all proper (sortBy compareIntervals ivs)"
    by (simp add: list_all_iff set_sortBy)
  have sep: "separated out" and prp: "list_all proper out"
    using ps out by (simp_all add: mergeSorted_separated mergeSorted_proper)
  from separated_sorted[OF sep prp] have "sorted_wrt (\<lambda>a b. startMinutes a \<le> startMinutes b) out"
    by (rule sorted_wrt_mono_rel[rotated]) simp
  then have "sorted (map startMinutes out)"
    by (simp add: sorted_wrt_map)
  moreover have "mergeBusyIntervals rt
           (filter (\<lambda>b. \<not> jsLessEq (timeToMinutes rt (BusyBlockRow.end_time b))
                                    (timeToMinutes rt (BusyBlockRow.start_time b))) blocks)
         = mergeBusyIntervals rt blocks"
    using mergeBusyIntervals_filter[of rt blocks] unfolding validBlock_eq .
  moreover note separated_all_pairs[OF sep prp]
  ultimately show ?thesis
    using sep prp by (simp add: separated_def list_all_iff proper_def)
qed

theorem merged_sorted_separated_witness:
  "map_of (mergeBusyIntervals exampleRuntime exampleBlocks) ''u'' = Some exampleMerged
   \<and> sorted (map startMinutes exampleMerged)
   \<and> successively (\<lambda>a b. startMinutes b > endMinutes a) exampleMerged
   \<and> sorted_wrt (\<lambda>a b. startMinutes b > endMinutes a) exampleMerged
   \<and> list_all (\<lambda>i. endMinutes i > startMinutes i) exampleMerged
   \<and> mergeBusyIntervals exampleRuntime
         (filter (\<lambda>b. \<not> jsLessEq (timeToMinutes exampleRuntime (BusyBlockRow.end_time b))
                                  (timeToMinutes exampleRuntime (BusyBlockRow.start_time b)))
            exampleBlocks)
       = mergeBusyIntervals exampleRuntime exampleBlocks"
proof -
  have h: "map_of (mergeBusyIntervals exampleRuntime exampleBlocks) ''u'' = Some exampleMerged"
    by code_simp
  from merged_sorted_separated[OF h] h show ?thesis
    unfolding list_all_iff by blast
qed

text \<open>
  Claim C5. Merging is idempotent: reading the merged intervals back as rows (the
  \<open>start_time\<close> and \<open>end_time\<close> of each interval, user by user) and merging them
  again gives exactly the same intervals, for every list of busy blocks.
\<close>

theorem merge_idempotent:
  "mergeBusyIntervals rt (toRows (mergeBusyIntervals rt blocks)) = mergeBusyIntervals rt blocks"
proof -
  let ?M = "mergeBusyIntervals rt blocks"
  have good: "goodGroups rt ?M" by (rule mergeBusyIntervals_good)
  then have regroup: "groupBlocks rt (toRows ?M) = ?M"
    using regroup_all[of rt "[]" ?M] by (simp add: groupBlocks_def)
  have fixed: "mergeSorted (sortBy compareIntervals out) = out" if "(u, out) \<in> set ?M" for u out
  proof -
    from that have "\<exists>u'. map_of ?M u' = Some out \<and> True"
      using good by (auto simp: goodGroups_def)
    then obtain u' where m: "map_of ?M u' = Some out" by blast
    from mergeBusyIntervals_entry[OF m] obtain ivs where
      out: "out = mergeSorted (sortBy compareIntervals ivs)" and p: "list_all proper ivs"
      by blast
    from p have ps: "list_all proper (sortBy compareIntervals ivs)"
      by (simp add: list_all_iff set_sortBy)
    have sep: "separated out" and prp: "list_all proper out"
      using ps out by (simp_all add: mergeSorted_separated mergeSorted_proper)
    then show ?thesis
      by (simp add: sortBy_separated mergeSorted_separated_id)
  qed
  have "map (\<lambda>(u, ivs). (u, mergeSorted (sortBy compareIntervals ivs))) ?M = ?M"
    by (rule map_idI) (auto simp: fixed)
  with regroup show ?thesis
    by (simp add: mergeBusyIntervals_map[of rt "toRows ?M"])
qed

theorem merge_idempotent_witness:
  "mergeBusyIntervals exampleRuntime (toRows (mergeBusyIntervals exampleRuntime exampleBlocks))
     = [(''u'', exampleMerged)]"
proof -
  have h: "mergeBusyIntervals exampleRuntime exampleBlocks = [(''u'', exampleMerged)]"
    by code_simp
  from merge_idempotent[of exampleRuntime exampleBlocks] h show ?thesis by simp
qed

section \<open>Lemmas on the time parameter\<close>

lemma join_split: "joinWith c (splitOn c s) = s"
proof (induction s)
  case Nil
  then show ?case by simp
next
  case (Cons x xs)
  obtain p ps where sp: "splitOn c xs = p # ps"
    by (cases "splitOn c xs") (auto split: if_splits list.splits elim: splitOn.elims)
  show ?case
  proof (cases "x = c")
    case True
    with Cons sp show ?thesis by simp
  next
    case False
    with Cons sp show ?thesis by (cases ps) simp_all
  qed
qed

lemma splitOn_nocolon: "c \<notin> set s \<Longrightarrow> splitOn c s = [s]"
  by (induction s) auto

lemma splitOn_append: "c \<notin> set h \<Longrightarrow> splitOn c (h @ c # rest) = h # splitOn c rest"
  by (induction h) auto

lemma isDigit_cases:
  "isDigit d \<longleftrightarrow> d = CHR ''0'' \<or> d = CHR ''1'' \<or> d = CHR ''2'' \<or> d = CHR ''3'' \<or> d = CHR ''4''
     \<or> d = CHR ''5'' \<or> d = CHR ''6'' \<or> d = CHR ''7'' \<or> d = CHR ''8'' \<or> d = CHR ''9''"
  by (auto simp: isDigit_def)

lemma isDigit_not_colon: "isDigit d \<Longrightarrow> d \<noteq> CHR '':''"
  by (auto simp: isDigit_def)

lemma digitValue_le9: "isDigit d \<Longrightarrow> digitValue d \<le> 9"
  by (auto simp: isDigit_cases digitValue_def)

lemma digitValue_le1: "isDigit d \<Longrightarrow> digitValue d \<le> 1 \<longleftrightarrow> d \<in> set ''01''"
  by (auto simp: isDigit_cases digitValue_def)

lemma digitValue_eq2: "isDigit d \<Longrightarrow> digitValue d = 2 \<longleftrightarrow> d = CHR ''2''"
  by (auto simp: isDigit_cases digitValue_def)

lemma digitValue_le3: "isDigit d \<Longrightarrow> digitValue d \<le> 3 \<longleftrightarrow> d \<in> set ''0123''"
  by (auto simp: isDigit_cases digitValue_def)

lemma digitValue_le5: "isDigit d \<Longrightarrow> digitValue d \<le> 5 \<longleftrightarrow> d \<in> set ''012345''"
  by (auto simp: isDigit_cases digitValue_def)

lemma isDigit_subsets:
  "d \<in> set ''01'' \<Longrightarrow> isDigit d" "d \<in> set ''0123'' \<Longrightarrow> isDigit d"
  "d \<in> set ''012345'' \<Longrightarrow> isDigit d" "isDigit CHR ''2''"
  by (auto simp: isDigit_def)

lemma digitsValue_1: "digitsValue [d] = digitValue d"
  by (simp add: digitsValue_def)

lemma digitsValue_2: "digitsValue [a, b] = 10 * digitValue a + digitValue b"
  by (simp add: digitsValue_def)

lemma length_1_2: "(length h = 1 \<or> length h = 2) \<longleftrightarrow> (\<exists>d. h = [d]) \<or> (\<exists>a b. h = [a, b])"
  by (cases h; cases "tl h"; cases "tl (tl h)") auto

lemma length_2: "length m = 2 \<longleftrightarrow> (\<exists>a b. m = [a, b])"
  by (cases m; cases "tl m"; cases "tl (tl m)") auto

lemma hourField_iff: "hourField h \<longleftrightarrow> hourGroup h"
proof
  assume hf: "hourField h"
  then consider d where "h = [d]" | a b where "h = [a, b]"
    unfolding hourField_def length_1_2 by blast
  then show "hourGroup h"
  proof cases
    case 1
    with hf show ?thesis by (simp add: hourField_def hourGroup_def)
  next
    case 2
    with hf have da: "isDigit a" and db: "isDigit b" and v: "10 * digitValue a + digitValue b \<le> 23"
      by (simp_all add: hourField_def digitsValue_2)
    from v digitValue_le9[OF db] have "digitValue a \<le> 1 \<or> (digitValue a = 2 \<and> digitValue b \<le> 3)"
      by arith
    then have "a \<in> set ''01'' \<or> (a = CHR ''2'' \<and> b \<in> set ''0123'')"
      unfolding digitValue_le1[OF da] digitValue_eq2[OF da] digitValue_le3[OF db] .
    with db 2 show ?thesis
      unfolding hourGroup_def by blast
  qed
next
  assume "hourGroup h"
  then consider d where "isDigit d" "h = [d]"
    | a d where "a \<in> set ''01''" "isDigit d" "h = [a, d]"
    | b where "b \<in> set ''0123''" "h = [CHR ''2'', b]"
    unfolding hourGroup_def by blast
  then show "hourField h"
  proof cases
    case 1
    with digitValue_le9[of d] show ?thesis
      by (simp add: hourField_def digitsValue_1)
  next
    case 2
    from 2(1) have da: "isDigit a" by (rule isDigit_subsets)
    from digitValue_le1[OF da] 2(1) digitValue_le9[OF 2(2)] da 2 show ?thesis
      by (simp add: hourField_def digitsValue_2)
  next
    case 3
    from 3(1) have db: "isDigit b" by (rule isDigit_subsets)
    from digitValue_le3[OF db] 3(1) digitValue_eq2[OF isDigit_subsets(4)] db 3 show ?thesis
      by (simp add: hourField_def digitsValue_2 isDigit_subsets(4))
  qed
qed

lemma sixtyField_iff: "sixtyField m \<longleftrightarrow> sixtyGroup m"
proof
  assume sf: "sixtyField m"
  then obtain a b where m: "m = [a, b]"
    unfolding sixtyField_def length_2 by blast
  with sf have da: "isDigit a" and db: "isDigit b" and v: "10 * digitValue a + digitValue b \<le> 59"
    by (simp_all add: sixtyField_def digitsValue_2)
  from v have "digitValue a \<le> 5" by arith
  then have "a \<in> set ''012345''"
    unfolding digitValue_le5[OF da] .
  with db m show "sixtyGroup m"
    unfolding sixtyGroup_def by blast
next
  assume "sixtyGroup m"
  then obtain a b where ab: "a \<in> set ''012345''" "isDigit b" "m = [a, b]"
    unfolding sixtyGroup_def by blast
  from ab(1) have da: "isDigit a" by (rule isDigit_subsets)
  from digitValue_le5[OF da] ab(1) digitValue_le9[OF ab(2)] da ab show "sixtyField m"
    by (simp add: sixtyField_def digitsValue_2)
qed

lemma length_3: "length s = 3 \<longleftrightarrow> (\<exists>a b c. s = [a, b, c])"
  by (cases s; cases "tl s"; cases "tl (tl s)"; cases "tl (tl (tl s))") auto

lemma length_6: "length s = 6 \<longleftrightarrow> (\<exists>a b c d e f. s = [a, b, c, d, e, f])"
proof
  assume "length s = 6"
  then have "length (take 3 s) = 3" "length (drop 3 s) = 3" by simp_all
  then obtain a b c d e f where "take 3 s = [a, b, c]" "drop 3 s = [d, e, f]"
    unfolding length_3 by blast
  then have "s = [a, b, c, d, e, f]"
    using append_take_drop_id[of 3 s] by simp
  then show "\<exists>a b c d e f. s = [a, b, c, d, e, f]" by blast
qed auto

lemma matchTail_short:
  assumes "a \<in> set ''012345''" "isDigit b"
  shows "matchTail [CHR '':'', a, b] = Some ([a, b], None)"
  using assms by (simp add: matchTail_def del: list.set)

lemma matchTail_long:
  assumes "a \<in> set ''012345''" "isDigit b" "c \<in> set ''012345''" "isDigit d"
  shows "matchTail [CHR '':'', a, b, CHR '':'', c, d] = Some ([a, b], Some [c, d])"
  using assms by (simp add: matchTail_def del: list.set)

lemma matchTail_cases:
  assumes "matchTail rest \<noteq> None"
  shows "(length rest = 3 \<and> rest ! 0 = CHR '':'' \<and> rest ! 1 \<in> set ''012345'' \<and> isDigit (rest ! 2))
       \<or> (length rest = 6 \<and> rest ! 0 = CHR '':'' \<and> rest ! 1 \<in> set ''012345'' \<and> isDigit (rest ! 2)
            \<and> rest ! 3 = CHR '':'' \<and> rest ! 4 \<in> set ''012345'' \<and> isDigit (rest ! 5))"
  using assms unfolding matchTail_def by (meson option.distinct)

lemma matchTail_iff:
  "matchTail rest \<noteq> None \<longleftrightarrow>
     (\<exists>m. sixtyGroup m \<and> (rest = CHR '':'' # m \<or> (\<exists>x. sixtyGroup x \<and> rest = CHR '':'' # m @ CHR '':'' # x)))"
proof
  assume "matchTail rest \<noteq> None"
  from matchTail_cases[OF this] consider
      "length rest = 3" "rest ! 0 = CHR '':''" "rest ! 1 \<in> set ''012345''" "isDigit (rest ! 2)"
    | "length rest = 6" "rest ! 0 = CHR '':''" "rest ! 1 \<in> set ''012345''" "isDigit (rest ! 2)"
      "rest ! 3 = CHR '':''" "rest ! 4 \<in> set ''012345''" "isDigit (rest ! 5)"
    by blast
  then show "\<exists>m. sixtyGroup m \<and> (rest = CHR '':'' # m \<or> (\<exists>x. sixtyGroup x \<and> rest = CHR '':'' # m @ CHR '':'' # x))"
  proof cases
    case 1
    from 1(1) obtain a b c where r: "rest = [a, b, c]" unfolding length_3 by blast
    from 1(2-4) have "a = CHR '':''" "b \<in> set ''012345''" "isDigit c"
      unfolding r by (simp_all del: list.set)
    then have "sixtyGroup [b, c]" "rest = CHR '':'' # [b, c]"
      unfolding sixtyGroup_def r by blast+
    then show ?thesis by blast
  next
    case 2
    from 2(1) obtain a b c d e f where r: "rest = [a, b, c, d, e, f]" unfolding length_6 by blast
    from 2(2-7) have "a = CHR '':''" "b \<in> set ''012345''" "isDigit c"
      "d = CHR '':''" "e \<in> set ''012345''" "isDigit f"
      unfolding r by (simp_all del: list.set)
    then have "sixtyGroup [b, c]" "sixtyGroup [e, f]" "rest = CHR '':'' # [b, c] @ CHR '':'' # [e, f]"
      unfolding sixtyGroup_def r by (blast, blast, simp)
    then show ?thesis by blast
  qed
next
  assume "\<exists>m. sixtyGroup m \<and> (rest = CHR '':'' # m \<or> (\<exists>x. sixtyGroup x \<and> rest = CHR '':'' # m @ CHR '':'' # x))"
  then obtain m where m: "sixtyGroup m"
    and r: "rest = CHR '':'' # m \<or> (\<exists>x. sixtyGroup x \<and> rest = CHR '':'' # m @ CHR '':'' # x)"
    by blast
  from m obtain a b where ab: "a \<in> set ''012345''" "isDigit b" "m = [a, b]"
    unfolding sixtyGroup_def by blast
  from r show "matchTail rest \<noteq> None"
  proof
    assume "rest = CHR '':'' # m"
    with matchTail_short[OF ab(1,2)] ab(3) show ?thesis by simp
  next
    assume "\<exists>x. sixtyGroup x \<and> rest = CHR '':'' # m @ CHR '':'' # x"
    then obtain c d where cd: "c \<in> set ''012345''" "isDigit d" "rest = CHR '':'' # m @ CHR '':'' # [c, d]"
      unfolding sixtyGroup_def by blast
    with matchTail_long[OF ab(1,2) cd(1,2)] ab(3) show ?thesis by simp
  qed
qed

lemma candidate_two:
  "(h, rest) \<in> set (case s of a # d # r \<Rightarrow> if P a d then [([a, d], r)] else [] | _ \<Rightarrow> [])
     \<longleftrightarrow> (\<exists>a d. P a d \<and> h = [a, d] \<and> s = h @ rest)"
  by (auto split: list.splits)

lemma candidate_one:
  "(h, rest) \<in> set (case s of d # r \<Rightarrow> if Q d then [([d], r)] else [] | _ \<Rightarrow> [])
     \<longleftrightarrow> (\<exists>d. Q d \<and> h = [d] \<and> s = h @ rest)"
  by (auto split: list.splits)

lemma hourCandidates_iff:
  "(h, rest) \<in> set (hourCandidates s) \<longleftrightarrow> hourGroup h \<and> s = h @ rest"
  unfolding hourCandidates_def hourGroup_def set_append Un_iff
    candidate_two[where P = "\<lambda>a d. a \<in> set ''01'' \<and> isDigit d"]
    candidate_two[where P = "\<lambda>a b. a = CHR ''2'' \<and> b \<in> set ''0123''"]
    candidate_one
  by blast

lemma map_filter_empty: "List.map_filter f xs = [] \<longleftrightarrow> (\<forall>x \<in> set xs. f x = None)"
  by (induction xs) (auto split: option.splits)

lemma timeRegexMatch_iff:
  "timeRegexMatch s \<noteq> None \<longleftrightarrow>
     (\<exists>h rest. (h, rest) \<in> set (hourCandidates s) \<and> matchTail rest \<noteq> None)"
proof -
  let ?f = "\<lambda>(h, rest). map_option (\<lambda>(m, sec). (h, m, sec)) (matchTail rest)"
  have "timeRegexMatch s \<noteq> None \<longleftrightarrow> List.map_filter ?f (hourCandidates s) \<noteq> []"
    by (simp add: timeRegexMatch_def split: list.splits)
  also have "\<dots> \<longleftrightarrow> (\<exists>x \<in> set (hourCandidates s). ?f x \<noteq> None)"
    by (simp add: map_filter_empty)
  also have "\<dots> \<longleftrightarrow> (\<exists>h rest. (h, rest) \<in> set (hourCandidates s) \<and> matchTail rest \<noteq> None)"
    by (simp add: split_def Bex_def)
  finally show ?thesis .
qed

lemma hourGroup_no_colon: "hourGroup h \<Longrightarrow> CHR '':'' \<notin> set h"
  by (auto simp: hourGroup_def isDigit_def)

lemma sixtyGroup_no_colon: "sixtyGroup m \<Longrightarrow> CHR '':'' \<notin> set m"
  by (auto simp: sixtyGroup_def isDigit_def)

lemma clockForm_iff:
  "clockForm s \<longleftrightarrow>
     (\<exists>h m. hourGroup h \<and> sixtyGroup m \<and>
        (s = h @ CHR '':'' # m \<or> (\<exists>x. sixtyGroup x \<and> s = h @ CHR '':'' # m @ CHR '':'' # x)))"
proof
  assume cf: "clockForm s"
  then consider h m where "splitOn CHR '':'' s = [h, m]" "hourField h" "sixtyField m"
    | h m x where "splitOn CHR '':'' s = [h, m, x]" "hourField h" "sixtyField m" "sixtyField x"
    unfolding clockForm_def by (auto split: list.splits)
  then show "\<exists>h m. hourGroup h \<and> sixtyGroup m \<and>
        (s = h @ CHR '':'' # m \<or> (\<exists>x. sixtyGroup x \<and> s = h @ CHR '':'' # m @ CHR '':'' # x))"
  proof cases
    case 1
    from join_split[of "CHR '':''" s] 1(1) have "s = h @ CHR '':'' # m" by simp
    with 1 show ?thesis unfolding hourField_iff sixtyField_iff by blast
  next
    case 2
    from join_split[of "CHR '':''" s] 2(1) have "s = h @ CHR '':'' # m @ CHR '':'' # x" by simp
    with 2 show ?thesis unfolding hourField_iff sixtyField_iff by blast
  qed
next
  assume "\<exists>h m. hourGroup h \<and> sixtyGroup m \<and>
        (s = h @ CHR '':'' # m \<or> (\<exists>x. sixtyGroup x \<and> s = h @ CHR '':'' # m @ CHR '':'' # x))"
  then obtain h m where hm: "hourGroup h" "sixtyGroup m"
    and s: "s = h @ CHR '':'' # m \<or> (\<exists>x. sixtyGroup x \<and> s = h @ CHR '':'' # m @ CHR '':'' # x)"
    by blast
  from s show "clockForm s"
  proof
    assume "s = h @ CHR '':'' # m"
    with hm have "splitOn CHR '':'' s = [h, m]"
      by (simp add: splitOn_append splitOn_nocolon hourGroup_no_colon sixtyGroup_no_colon)
    with hm show ?thesis
      by (simp add: clockForm_def hourField_iff sixtyField_iff)
  next
    assume "\<exists>x. sixtyGroup x \<and> s = h @ CHR '':'' # m @ CHR '':'' # x"
    then obtain x where x: "sixtyGroup x" "s = h @ CHR '':'' # m @ CHR '':'' # x" by blast
    with hm have "splitOn CHR '':'' s = [h, m, x]"
      by (simp add: splitOn_append splitOn_nocolon hourGroup_no_colon sixtyGroup_no_colon)
    with hm x show ?thesis
      by (simp add: clockForm_def hourField_iff sixtyField_iff)
  qed
qed

lemma timeRegexMatch_clockForm: "timeRegexMatch s \<noteq> None \<longleftrightarrow> clockForm s"
  unfolding timeRegexMatch_iff hourCandidates_iff matchTail_iff clockForm_iff
  by metis

lemma timeRegexMatch_Nil: "timeRegexMatch [] = None"
  by (simp add: timeRegexMatch_def hourCandidates_def)

lemma parseTimeParam_Some_iff: "parseTimeParam rt (Some s) \<noteq> None \<longleftrightarrow> timeRegexMatch s \<noteq> None"
  by (cases "s = []") (auto simp: parseTimeParam_def timeRegexMatch_Nil Let_def split: option.splits)

section \<open>The claim on the time parameter\<close>

text \<open>
  Claim C9, amended. \<open>parseTimeParam\<close> returns a result exactly for the strings made
  of an hour of one or two digits from 0 to 23, a colon, a minute of two digits from 0
  to 59 and, optionally, a colon and seconds of two digits from 0 to 59 (\<^verbatim>\<open>H:MM\<close>,
  \<^verbatim>\<open>HH:MM\<close>, \<^verbatim>\<open>H:MM:SS\<close>, \<^verbatim>\<open>HH:MM:SS\<close>), and null for every other string and
  for a missing parameter. In particular \<^verbatim>\<open>"9:05"\<close> gives 545 minutes with the label
  \<^verbatim>\<open>9:05AM\<close>, the period in upper case, and \<^verbatim>\<open>"25:00"\<close> gives null.
\<close>

theorem parseTimeParam_accepts:
  "(parseTimeParam rt (Some s) \<noteq> None) = clockForm s
   \<and> parseTimeParam rt None = None
   \<and> parseTimeParam exampleRuntime (Some ''9:05'')
       = Some \<lparr>ParsedTime.minutes = Some 545, label = ''9:05AM''\<rparr>
   \<and> parseTimeParam exampleRuntime (Some ''25:00'') = None"
proof -
  have "parseTimeParam exampleRuntime (Some ''9:05'')
       = Some \<lparr>ParsedTime.minutes = Some 545, label = ''9:05AM''\<rparr>"
    by code_simp
  moreover have "parseTimeParam exampleRuntime (Some ''25:00'') = None"
    by code_simp
  moreover have "parseTimeParam rt None = None"
    by (simp add: parseTimeParam_def)
  moreover have "(parseTimeParam rt (Some s) \<noteq> None) = clockForm s"
    unfolding parseTimeParam_Some_iff timeRegexMatch_clockForm ..
  ultimately show ?thesis
    by blast
qed

theorem parseTimeParam_accepts_witness:
  "parseTimeParam exampleRuntime (Some ''23:59:59'') \<noteq> None \<and> clockForm ''23:59:59''
   \<and> parseTimeParam exampleRuntime (Some ''9:5'') = None \<and> \<not> clockForm ''9:5''"
proof -
  have a: "clockForm ''23:59:59''" by code_simp
  have b: "\<not> clockForm ''9:5''" by code_simp
  from parseTimeParam_accepts[of exampleRuntime "''23:59:59''"]
    parseTimeParam_accepts[of exampleRuntime "''9:5''"] a b
  show ?thesis by simp
qed

text \<open>
  The label of claim C9 as the specification writes it, \<^verbatim>\<open>9:05am\<close> in lower case, is
  not what the code returns.
\<close>

theorem parseTimeParam_label_counterexample:
  "parseTimeParam exampleRuntime (Some ''9:05'')
     \<noteq> Some \<lparr>ParsedTime.minutes = Some 545, label = ''9:05am''\<rparr>"
  by code_simp

section \<open>Lemmas on the calendar normaliser\<close>

lemma foldl_append_concat: "foldl (\<lambda>acc x. acc @ f x) acc xs = acc @ concat (map f xs)"
  by (induction xs arbitrary: acc) simp_all

lemma parseIcs_concat: "parseIcsToBusyBlocks rt parsed = concat (map (entryBlocks rt) parsed)"
  by (simp add: parseIcsToBusyBlocks_def foldl_append_concat)

lemma entryBlocks_weekday:
  assumes "b \<in> set (entryBlocks rt entry)"
  shows "1 \<le> BusyBlockInput.weekday b \<and> BusyBlockInput.weekday b \<le> 5"
  using assms
  by (auto simp: entryBlocks_def Let_def WEEKDAY_MIN_def WEEKDAY_MAX_def
      split: option.splits if_splits)

lemma entryBlocks_weekend:
  assumes "\<forall>w \<in> set (extractWeekdays rt e). w = 6 \<or> w = 7"
  shows "entryBlocks rt (Some e) = []"
proof -
  from assms have "filter (\<lambda>w. \<not> (w < WEEKDAY_MIN \<or> w > WEEKDAY_MAX)) (extractWeekdays rt e) = []"
    by (auto simp: filter_empty_conv WEEKDAY_MIN_def WEEKDAY_MAX_def)
  then show ?thesis
    by (simp add: entryBlocks_def Let_def)
qed

lemma entryBlocks_origin:
  assumes "b \<in> set (entryBlocks rt entry)"
  shows "\<exists>e s en. entry = Some e \<and> start e = Some s \<and> end e = Some en \<and> s < en
           \<and> BusyBlockInput.start_time b = formatTime_ics rt s
           \<and> BusyBlockInput.end_time b = formatTime_ics rt en
           \<and> BusyBlockInput.weekday b \<in> set (extractWeekdays rt e)"
  using assms
  by (auto simp: entryBlocks_def Let_def split: option.splits if_splits)

lemma entryBlocks_inverted:
  assumes "start e = Some s" "end e = Some en" "en \<le> s"
  shows "entryBlocks rt (Some e) = []"
  using assms by (simp add: entryBlocks_def)

lemma setAdd_set: "set (setAdd x xs) = insert x (set xs)"
  by (auto simp: setAdd_def)

lemma setAdd_distinct: "distinct xs \<Longrightarrow> distinct (setAdd x xs)"
  by (auto simp: setAdd_def)

lemma normalized_fold:
  "distinct acc \<Longrightarrow>
   set (foldl (\<lambda>normalized entry. case entryWeekday entry of
                 Some w \<Rightarrow> setAdd (w + 1) normalized | None \<Rightarrow> normalized) acc es)
     = set acc \<union> (\<lambda>c. c + 1) ` set (List.map_filter entryWeekday es)
   \<and> distinct (foldl (\<lambda>normalized entry. case entryWeekday entry of
                 Some w \<Rightarrow> setAdd (w + 1) normalized | None \<Rightarrow> normalized) acc es)"
proof (induction es arbitrary: acc)
  case Nil
  then show ?case by simp
next
  case (Cons e es)
  show ?case
  proof (cases "entryWeekday e")
    case None
    with Cons show ?thesis by simp
  next
    case (Some w)
    from Cons.prems have "distinct (setAdd (w + 1) acc)" by (rule setAdd_distinct)
    from Cons.IH[OF this] Some show ?thesis
      by (simp add: setAdd_set)
  qed
qed

lemma WEEKDAY_LOOKUP_range: "WEEKDAY_LOOKUP l = Some w \<Longrightarrow> 1 \<le> w \<and> w \<le> 7"
  by (auto simp: WEEKDAY_LOOKUP_def split: if_splits)

lemma codesOfEntry_entryWeekday:
  "codesOfEntry x = (case entryWeekday x of None \<Rightarrow> [] | Some w \<Rightarrow> [w])"
  by (cases x rule: codesOfEntry.cases) (simp_all add: entryWeekday_def)

lemma codes_map_filter: "concat (map codesOfEntry es) = List.map_filter entryWeekday es"
  by (induction es) (simp_all add: codesOfEntry_entryWeekday split: option.splits)

lemma recurrenceCodes_read:
  "recurrenceCodes e =
     (case Option.bind (rrule e) (\<lambda>r. Option.bind (options r) RRuleOptions.byweekday) of
        None \<Rightarrow> []
      | Some bw \<Rightarrow> List.map_filter entryWeekday (case bw of ArrayOf es \<Rightarrow> es | Single x \<Rightarrow> [x]))"
proof -
  have single: "codesOfEntry x = List.map_filter entryWeekday [x]" for x
    using codes_map_filter[of "[x]"] by simp
  show ?thesis
    by (simp add: recurrenceCodes_def codes_map_filter single
        split: option.splits ByWeekday.splits)
qed

lemma weekdayOfLabel_lookup: "WEEKDAY_LOOKUP l = weekdayOfLabel l"
  by (simp add: WEEKDAY_LOOKUP_def weekdayOfLabel_def)

lemma extractWeekdays_rule:
  assumes "recurrenceCodes e \<noteq> []"
  shows "set (extractWeekdays rt e) = (\<lambda>c. c + 1) ` set (recurrenceCodes e)
       \<and> distinct (extractWeekdays rt e)"
proof -
  let ?bw = "Option.bind (rrule e) (\<lambda>r. Option.bind (options r) RRuleOptions.byweekday)"
  from assms obtain bw where bw: "?bw = Some bw"
    by (cases ?bw) (auto simp: recurrenceCodes_read)
  let ?es = "case bw of ArrayOf es \<Rightarrow> es | Single x \<Rightarrow> [x]"
  let ?n = "foldl (\<lambda>normalized entry. case entryWeekday entry of
                 Some w \<Rightarrow> setAdd (w + 1) normalized | None \<Rightarrow> normalized) [] ?es"
  have codes: "recurrenceCodes e = List.map_filter entryWeekday ?es"
    using bw by (simp add: recurrenceCodes_read)
  from normalized_fold[of "[]" ?es] have n: "set ?n = (\<lambda>c. c + 1) ` set (recurrenceCodes e)" "distinct ?n"
    by (simp_all add: codes)
  with assms have "?n \<noteq> []" by auto
  then have "extractWeekdays rt e = ?n"
    using bw by (simp add: extractWeekdays_def Let_def)
  with n show ?thesis by simp
qed

lemma extractWeekdays_fallback:
  assumes "recurrenceCodes e = []"
  shows "extractWeekdays rt e =
           (case start e of
              None \<Rightarrow> []
            | Some d \<Rightarrow>
                (case weekdayOfLabel (WEEKDAY_FORMATTER rt d) of None \<Rightarrow> [] | Some w \<Rightarrow> [w]))"
proof -
  let ?bw = "Option.bind (rrule e) (\<lambda>r. Option.bind (options r) RRuleOptions.byweekday)"
  have nz: "getWeekdayInZone rt d = Some w \<Longrightarrow> w \<noteq> 0" for d w
    using WEEKDAY_LOOKUP_range[of "WEEKDAY_FORMATTER rt d" w] by (auto simp: getWeekdayInZone_def)
  have zone: "getWeekdayInZone rt d = weekdayOfLabel (WEEKDAY_FORMATTER rt d)" for d
    by (simp add: getWeekdayInZone_def weekdayOfLabel_lookup)
  have "extractWeekdays rt e =
           (case start e of
              None \<Rightarrow> []
            | Some d \<Rightarrow> (case getWeekdayInZone rt d of None \<Rightarrow> [] | Some w \<Rightarrow> [w]))"
  proof (cases ?bw)
    case None
    then show ?thesis
      by (auto simp: extractWeekdays_def Let_def split: option.splits dest: nz)
  next
    case (Some bw)
    let ?es = "case bw of ArrayOf es \<Rightarrow> es | Single x \<Rightarrow> [x]"
    have "recurrenceCodes e = List.map_filter entryWeekday ?es"
      using Some by (simp add: recurrenceCodes_read)
    with assms normalized_fold[of "[]" ?es]
    have empty: "foldl (\<lambda>normalized entry. case entryWeekday entry of
                 Some w \<Rightarrow> setAdd (w + 1) normalized | None \<Rightarrow> normalized) [] ?es = []"
      by simp
    show ?thesis
      using Some empty
      by (auto simp: extractWeekdays_def Let_def split: option.splits dest: nz)
  qed
  then show ?thesis unfolding zone .
qed

section \<open>The claims on the calendar normaliser\<close>

text \<open>
  Claim C6. Every busy block that \<open>parseIcsToBusyBlocks\<close> emits has its weekday in
  the range 1 to 5 (Monday to Friday), and an event all of whose resolved weekdays are
  6 or 7 (Saturday or Sunday) contributes no block.
\<close>

theorem blocks_in_business_week:
  "(\<forall>b \<in> set (parseIcsToBusyBlocks rt parsed).
      1 \<le> BusyBlockInput.weekday b \<and> BusyBlockInput.weekday b \<le> 5)
   \<and> ((\<forall>w \<in> set (extractWeekdays rt e). w = 6 \<or> w = 7) \<longrightarrow>
        parseIcsToBusyBlocks rt [Some e] = []
        \<and> parseIcsToBusyBlocks rt (before @ Some e # after) = parseIcsToBusyBlocks rt (before @ after))"
proof -
  have "1 \<le> BusyBlockInput.weekday b \<and> BusyBlockInput.weekday b \<le> 5"
    if "b \<in> set (parseIcsToBusyBlocks rt parsed)" for b
  proof -
    from that obtain entry where "b \<in> set (entryBlocks rt entry)"
      by (auto simp: parseIcs_concat)
    then show ?thesis by (rule entryBlocks_weekday)
  qed
  moreover have "parseIcsToBusyBlocks rt [Some e] = []
        \<and> parseIcsToBusyBlocks rt (before @ Some e # after) = parseIcsToBusyBlocks rt (before @ after)"
    if "\<forall>w \<in> set (extractWeekdays rt e). w = 6 \<or> w = 7"
    using entryBlocks_weekend[OF that] by (simp add: parseIcs_concat)
  ultimately show ?thesis by blast
qed

theorem blocks_in_business_week_witness:
  "extractWeekdays exampleRuntime weekendEvent = [6, 7]
   \<and> parseIcsToBusyBlocks exampleRuntime [Some weekendEvent] = []
   \<and> parseIcsToBusyBlocks exampleRuntime [Some recurringTueThu, Some weekendEvent]
       = parseIcsToBusyBlocks exampleRuntime [Some recurringTueThu]
   \<and> list_all (\<lambda>b. 1 \<le> BusyBlockInput.weekday b \<and> BusyBlockInput.weekday b \<le> 5)
        (parseIcsToBusyBlocks exampleRuntime [Some recurringTueThu, Some weekendEvent])
   \<and> parseIcsToBusyBlocks exampleRuntime [Some recurringTueThu] \<noteq> []"
proof -
  have w: "extractWeekdays exampleRuntime weekendEvent = [6, 7]"
    by code_simp
  then have h: "\<forall>w \<in> set (extractWeekdays exampleRuntime weekendEvent). w = 6 \<or> w = 7"
    by simp
  have ne: "parseIcsToBusyBlocks exampleRuntime [Some recurringTueThu] \<noteq> []"
    by code_simp
  from blocks_in_business_week[of exampleRuntime "[Some recurringTueThu, Some weekendEvent]"
      weekendEvent "[Some recurringTueThu]" "[]"] h w ne
  show ?thesis
    unfolding list_all_iff by simp
qed

text \<open>
  Claim C4. The recurrence resolver: when the event carries recurrence weekday codes
  (given as a single number, an object with a weekday field, or a list of either), the
  result is those codes, each incremented by 1, without duplicates; when there are
  none, the result is the single weekday (Monday is 1, Sunday is 7) that the fixed
  time zone gives for the start instant, and it is empty when the event has no start
  or the zone gives no weekday. Consequently a recurring event with the weekdays
  Tuesday and Thursday and a one-off event that starts on a Wednesday normalise into
  exactly three busy blocks (Tuesday, Thursday, Wednesday) with the time of day of the
  events.
\<close>

theorem recurrence_resolver:
  "(recurrenceCodes e \<noteq> [] \<longrightarrow>
      set (extractWeekdays rt e) = (\<lambda>c. c + 1) ` set (recurrenceCodes e)
      \<and> distinct (extractWeekdays rt e))
   \<and> (recurrenceCodes e = [] \<longrightarrow>
        extractWeekdays rt e =
          (case start e of
             None \<Rightarrow> []
           | Some d \<Rightarrow>
               (case weekdayOfLabel (WEEKDAY_FORMATTER rt d) of None \<Rightarrow> [] | Some w \<Rightarrow> [w])))
   \<and> parseIcsToBusyBlocks exampleRuntime [Some recurringTueThu, Some oneOffWed]
       = [\<lparr>BusyBlockInput.weekday = 2, start_time = ''10:00:00'', end_time = ''11:00:00''\<rparr>,
          \<lparr>BusyBlockInput.weekday = 4, start_time = ''10:00:00'', end_time = ''11:00:00''\<rparr>,
          \<lparr>BusyBlockInput.weekday = 3, start_time = ''10:00:00'', end_time = ''11:00:00''\<rparr>]"
proof -
  have "parseIcsToBusyBlocks exampleRuntime [Some recurringTueThu, Some oneOffWed]
       = [\<lparr>BusyBlockInput.weekday = 2, start_time = ''10:00:00'', end_time = ''11:00:00''\<rparr>,
          \<lparr>BusyBlockInput.weekday = 4, start_time = ''10:00:00'', end_time = ''11:00:00''\<rparr>,
          \<lparr>BusyBlockInput.weekday = 3, start_time = ''10:00:00'', end_time = ''11:00:00''\<rparr>]"
    by code_simp
  with extractWeekdays_rule[of e rt] extractWeekdays_fallback[of e rt] show ?thesis
    by blast
qed

theorem recurrence_resolver_witness:
  "recurrenceCodes mixedListEvent = [1, 3, 1, 3]
   \<and> set (extractWeekdays exampleRuntime mixedListEvent) = {2, 4}
   \<and> distinct (extractWeekdays exampleRuntime mixedListEvent)
   \<and> extractWeekdays exampleRuntime mixedListEvent = [2, 4]
   \<and> recurrenceCodes singleNumberEvent = [0]
   \<and> extractWeekdays exampleRuntime singleNumberEvent = [1]
   \<and> recurrenceCodes singleObjectEvent = [4]
   \<and> extractWeekdays exampleRuntime singleObjectEvent = [5]
   \<and> recurrenceCodes codelessListEvent = []
   \<and> start codelessListEvent = Some 1704816000000
   \<and> WEEKDAY_FORMATTER exampleRuntime 1704816000000 = ''Tue''
   \<and> extractWeekdays exampleRuntime codelessListEvent = [2]
   \<and> recurrenceCodes oneOffWed = []
   \<and> start oneOffWed = Some 1704902400000
   \<and> WEEKDAY_FORMATTER exampleRuntime 1704902400000 = ''Wed''
   \<and> extractWeekdays exampleRuntime oneOffWed = [3]
   \<and> map (WEEKDAY_FORMATTER exampleRuntime) weekOfInstants
       = [''Mon'', ''Tue'', ''Wed'', ''Thu'', ''Fri'', ''Sat'', ''Sun'']
   \<and> map (\<lambda>d. extractWeekdays exampleRuntime (oneOffAt d)) weekOfInstants
       = [[1], [2], [3], [4], [5], [6], [7]]
   \<and> WEEKDAY_FORMATTER exampleRuntime 1704862800000 = ''Tue''
   \<and> extractWeekdays exampleRuntime overnightEvent = [2]
   \<and> extractWeekdays exampleRuntime (oneOffWed\<lparr>start := None\<rparr>) = []"
proof -
  have codes: "recurrenceCodes mixedListEvent = [1, 3, 1, 3]"
    "recurrenceCodes singleNumberEvent = [0]" "recurrenceCodes singleObjectEvent = [4]"
    "recurrenceCodes codelessListEvent = []" "recurrenceCodes oneOffWed = []"
    by code_simp+
  have starts: "start codelessListEvent = Some 1704816000000"
    "start oneOffWed = Some 1704902400000"
    by (simp_all add: codelessListEvent_def withByWeekday_def oneOffWed_def)
  have labels: "WEEKDAY_FORMATTER exampleRuntime 1704816000000 = ''Tue''"
    "WEEKDAY_FORMATTER exampleRuntime 1704902400000 = ''Wed''"
    "WEEKDAY_FORMATTER exampleRuntime 1704862800000 = ''Tue''"
    "map (WEEKDAY_FORMATTER exampleRuntime) weekOfInstants
       = [''Mon'', ''Tue'', ''Wed'', ''Thu'', ''Fri'', ''Sat'', ''Sun'']"
    by code_simp+
  have lists: "extractWeekdays exampleRuntime mixedListEvent = [2, 4]"
    "extractWeekdays exampleRuntime singleNumberEvent = [1]"
    "extractWeekdays exampleRuntime singleObjectEvent = [5]"
    "map (\<lambda>d. extractWeekdays exampleRuntime (oneOffAt d)) weekOfInstants
       = [[1], [2], [3], [4], [5], [6], [7]]"
    "extractWeekdays exampleRuntime overnightEvent = [2]"
    "extractWeekdays exampleRuntime (oneOffWed\<lparr>start := None\<rparr>) = []"
    by code_simp+
  have tue: "weekdayOfLabel ''Tue'' = Some 2" and wed: "weekdayOfLabel ''Wed'' = Some 3"
    by (simp_all add: weekdayOfLabel_def)
  from recurrence_resolver[of mixedListEvent exampleRuntime] codes(1)
  have mixed: "set (extractWeekdays exampleRuntime mixedListEvent) = {2, 4}"
    "distinct (extractWeekdays exampleRuntime mixedListEvent)"
    by auto
  from recurrence_resolver[of codelessListEvent exampleRuntime] codes(4) starts(1) labels(1) tue
  have codeless: "extractWeekdays exampleRuntime codelessListEvent = [2]"
    by simp
  from recurrence_resolver[of oneOffWed exampleRuntime] codes(5) starts(2) labels(2) wed
  have oneoff: "extractWeekdays exampleRuntime oneOffWed = [3]"
    by simp
  from codes starts labels lists mixed codeless oneoff show ?thesis
    by simp
qed

text \<open>
  Claim C3, amended. Every busy block that the normaliser emits comes from an event
  whose end instant is strictly later than its start instant, and carries the wall
  clock of these two instants; an event whose end instant is not later than its start
  instant is dropped. (The clock strings themselves are not compared, see the
  counterexample below.)
\<close>

theorem blocks_from_forward_events:
  "(\<forall>b \<in> set (parseIcsToBusyBlocks rt parsed).
      \<exists>e s en. Some e \<in> set parsed \<and> start e = Some s \<and> end e = Some en \<and> s < en
        \<and> BusyBlockInput.start_time b = formatTime_ics rt s
        \<and> BusyBlockInput.end_time b = formatTime_ics rt en)
   \<and> (start e = Some s \<and> end e = Some en \<and> en \<le> s \<longrightarrow>
        parseIcsToBusyBlocks rt [Some e] = []
        \<and> parseIcsToBusyBlocks rt (before @ Some e # after) = parseIcsToBusyBlocks rt (before @ after))"
proof -
  have "\<exists>e s en. Some e \<in> set parsed \<and> start e = Some s \<and> end e = Some en \<and> s < en
        \<and> BusyBlockInput.start_time b = formatTime_ics rt s
        \<and> BusyBlockInput.end_time b = formatTime_ics rt en"
    if "b \<in> set (parseIcsToBusyBlocks rt parsed)" for b
  proof -
    from that obtain entry where entry: "entry \<in> set parsed" "b \<in> set (entryBlocks rt entry)"
      by (auto simp: parseIcs_concat)
    from entryBlocks_origin[OF entry(2)] entry(1) show ?thesis by blast
  qed
  moreover have "parseIcsToBusyBlocks rt [Some e] = []
        \<and> parseIcsToBusyBlocks rt (before @ Some e # after) = parseIcsToBusyBlocks rt (before @ after)"
    if "start e = Some s \<and> end e = Some en \<and> en \<le> s"
    using entryBlocks_inverted[of e s en rt] that by (simp add: parseIcs_concat)
  ultimately show ?thesis by blast
qed

theorem blocks_from_forward_events_witness:
  "start (oneOffWed\<lparr>end := Some 1704902400000\<rparr>) = Some 1704902400000
   \<and> end (oneOffWed\<lparr>end := Some 1704902400000\<rparr>) = Some 1704902400000
   \<and> (1704902400000 :: int) \<le> 1704902400000
   \<and> parseIcsToBusyBlocks exampleRuntime [Some (oneOffWed\<lparr>end := Some 1704902400000\<rparr>)] = []
   \<and> parseIcsToBusyBlocks exampleRuntime [Some oneOffWed]
       = [\<lparr>BusyBlockInput.weekday = 3, start_time = ''10:00:00'', end_time = ''11:00:00''\<rparr>]
   \<and> start oneOffWed = Some 1704902400000 \<and> end oneOffWed = Some 1704906000000
   \<and> formatTime_ics exampleRuntime 1704902400000 = ''10:00:00''
   \<and> formatTime_ics exampleRuntime 1704906000000 = ''11:00:00''"
proof -
  have a: "start (oneOffWed\<lparr>end := Some 1704902400000\<rparr>) = Some 1704902400000"
    "end (oneOffWed\<lparr>end := Some 1704902400000\<rparr>) = Some 1704902400000"
    "start oneOffWed = Some 1704902400000" "end oneOffWed = Some 1704906000000"
    by (simp_all add: oneOffWed_def)
  have b: "parseIcsToBusyBlocks exampleRuntime [Some oneOffWed]
       = [\<lparr>BusyBlockInput.weekday = 3, start_time = ''10:00:00'', end_time = ''11:00:00''\<rparr>]"
    by code_simp
  have c: "formatTime_ics exampleRuntime 1704902400000 = ''10:00:00''"
    "formatTime_ics exampleRuntime 1704906000000 = ''11:00:00''"
    by code_simp+
  from blocks_from_forward_events[of exampleRuntime "[Some oneOffWed]"
      "oneOffWed\<lparr>end := Some 1704902400000\<rparr>" 1704902400000 1704902400000 "[]" "[]"] a b c
  show ?thesis by simp
qed

text \<open>
  Claim C3 as the specification states it fails: an event from 23:00 on Tuesday to
  01:00 on Wednesday ends after it starts, so it is emitted, as a block for Tuesday
  whose \<open>end_time\<close> is before its \<open>start_time\<close> on the clock of the day.
\<close>

theorem overnight_block_counterexample:
  "parseIcsToBusyBlocks exampleRuntime [Some overnightEvent]
     = [\<lparr>BusyBlockInput.weekday = 2, start_time = ''23:00:00'', end_time = ''01:00:00''\<rparr>]
   \<and> timeToMinutes exampleRuntime ''23:00:00'' = Some 1380
   \<and> timeToMinutes exampleRuntime ''01:00:00'' = Some 60
   \<and> \<not> jsLess (timeToMinutes exampleRuntime ''23:00:00'') (timeToMinutes exampleRuntime ''01:00:00'')"
  by code_simp

section \<open>Lemmas on the availability classifier\<close>

lemma scanInterval_busy:
  "map_of (fst (scanInterval rt ref u st i)) k =
     (if k = u then busyStep rt ref (map_of (fst st) u) i else map_of (fst st) k)"
  by (simp add: scanInterval_def Let_def busyStep_def containsRef_def update_conv')

lemma scanInterval_next:
  "map_of (snd (scanInterval rt ref u st i)) k =
     (if k = u then nextStep rt ref (map_of (snd st) u) i else map_of (snd st) k)"
  by (simp add: scanInterval_def Let_def nextStep_def startsAfter_def update_conv')

lemma scanUser_busy:
  "map_of (fst (foldl (scanInterval rt ref u) st ivs)) k =
     (if k = u then foldl (busyStep rt ref) (map_of (fst st) u) ivs else map_of (fst st) k)"
  by (induction ivs arbitrary: st) (simp_all add: scanInterval_busy)

lemma scanUser_next:
  "map_of (snd (foldl (scanInterval rt ref u) st ivs)) k =
     (if k = u then foldl (nextStep rt ref) (map_of (snd st) u) ivs else map_of (snd st) k)"
  by (induction ivs arbitrary: st) (simp_all add: scanInterval_next)

lemma scanAll_busy:
  assumes "distinct (map fst M)"
  shows "map_of (fst (foldl (\<lambda>state (userId, intervals).
                        foldl (scanInterval rt ref userId) state intervals) st M)) k =
           (case map_of M k of
              None \<Rightarrow> map_of (fst st) k
            | Some ivs \<Rightarrow> foldl (busyStep rt ref) (map_of (fst st) k) ivs)"
  using assms
proof (induction M arbitrary: st)
  case Nil
  then show ?case by simp
next
  case (Cons p M)
  obtain u ivs where p: "p = (u, ivs)" by (cases p)
  from Cons.prems p have d: "distinct (map fst M)" and fresh: "map_of M u = None"
    by (auto simp: map_of_eq_None_iff)
  show ?case
    using Cons.IH[OF d, of "foldl (scanInterval rt ref u) st ivs"] p fresh
    by (auto simp: scanUser_busy split: option.splits)
qed

lemma scanAll_next:
  assumes "distinct (map fst M)"
  shows "map_of (snd (foldl (\<lambda>state (userId, intervals).
                        foldl (scanInterval rt ref userId) state intervals) st M)) k =
           (case map_of M k of
              None \<Rightarrow> map_of (snd st) k
            | Some ivs \<Rightarrow> foldl (nextStep rt ref) (map_of (snd st) k) ivs)"
  using assms
proof (induction M arbitrary: st)
  case Nil
  then show ?case by simp
next
  case (Cons p M)
  obtain u ivs where p: "p = (u, ivs)" by (cases p)
  from Cons.prems p have d: "distinct (map fst M)" and fresh: "map_of M u = None"
    by (auto simp: map_of_eq_None_iff)
  show ?case
    using Cons.IH[OF d, of "foldl (scanInterval rt ref u) st ivs"] p fresh
    by (auto simp: scanUser_next split: option.splits)
qed

lemma scanIntervals_busy:
  assumes "distinct (map fst M)"
  shows "map_of (fst (scanIntervals rt ref M)) k = foldl (busyStep rt ref) None (intervalsOf M k)"
  using scanAll_busy[OF assms, of rt ref "([], [])" k]
  by (simp add: scanIntervals_def intervalsOf_def split: option.splits)

lemma scanIntervals_next:
  assumes "distinct (map fst M)"
  shows "map_of (snd (scanIntervals rt ref M)) k = foldl (nextStep rt ref) None (intervalsOf M k)"
  using scanAll_next[OF assms, of rt ref "([], [])" k]
  by (simp add: scanIntervals_def intervalsOf_def split: option.splits)

text \<open>What the two folds compute.\<close>

lemma busyEntryFor_end: "BusyMapEntry.endMinutes (busyEntryFor rt i) = endMinutes i"
  by (simp add: busyEntryFor_def)

lemma nextEntryFor_start: "NextBusyEntry.startMinutes (nextEntryFor rt i) = startMinutes i"
  by (simp add: nextEntryFor_def)

lemma busyStep_alt:
  "busyStep rt ref cur x =
     (if containsRef ref x \<and> (cur = None \<or> endMinutes x > BusyMapEntry.endMinutes (the cur))
      then Some (busyEntryFor rt x) else cur)"
  by (auto simp: busyStep_def busyEntryFor_def)

lemma nextStep_alt:
  "nextStep rt ref cur x =
     (if startsAfter ref x \<and> (cur = None \<or> startMinutes x < NextBusyEntry.startMinutes (the cur))
      then Some (nextEntryFor rt x) else cur)"
  by (auto simp: nextStep_def nextEntryFor_def)

lemma busyStep_inv:
  assumes "busyInv rt ref cur xs"
  shows "busyInv rt ref (busyStep rt ref cur x) (xs @ [x])"
proof (cases cur)
  case None
  with assms have no: "\<forall>i \<in> set xs. \<not> containsRef ref i"
    by (simp add: busyInv_def)
  show ?thesis
  proof (cases "containsRef ref x")
    case True
    with None have "busyStep rt ref cur x = Some (busyEntryFor rt x)"
      by (simp add: busyStep_alt)
    moreover have "\<forall>j \<in> set (xs @ [x]). containsRef ref j \<longrightarrow> endMinutes j \<le> endMinutes x"
      using no by auto
    ultimately show ?thesis
      using True unfolding busyInv_def by force
  next
    case False
    with None have "busyStep rt ref cur x = None"
      by (simp add: busyStep_alt)
    with no False show ?thesis
      by (simp add: busyInv_def)
  qed
next
  case (Some e)
  with assms obtain i where i: "i \<in> set xs" "containsRef ref i" "e = busyEntryFor rt i"
    "\<forall>j \<in> set xs. containsRef ref j \<longrightarrow> endMinutes j \<le> endMinutes i"
    unfolding busyInv_def by auto
  show ?thesis
  proof (cases "containsRef ref x \<and> endMinutes x > endMinutes i")
    case True
    with Some i have "busyStep rt ref cur x = Some (busyEntryFor rt x)"
      by (simp add: busyStep_alt busyEntryFor_end)
    moreover have "\<forall>j \<in> set (xs @ [x]). containsRef ref j \<longrightarrow> endMinutes j \<le> endMinutes x"
      using i(4) True by fastforce
    ultimately show ?thesis
      using True unfolding busyInv_def by force
  next
    case False
    with Some i have "busyStep rt ref cur x = Some (busyEntryFor rt i)"
      by (auto simp: busyStep_alt busyEntryFor_end)
    moreover have "\<forall>j \<in> set (xs @ [x]). containsRef ref j \<longrightarrow> endMinutes j \<le> endMinutes i"
      using i(4) False by auto
    moreover have "i \<in> set (xs @ [x])" using i(1) by simp
    ultimately show ?thesis
      using i(2) unfolding busyInv_def by force
  qed
qed

lemma busyFold_inv: "busyInv rt ref (foldl (busyStep rt ref) None ivs) ivs"
proof (induction ivs rule: rev_induct)
  case Nil
  then show ?case by (simp add: busyInv_def)
next
  case (snoc x xs)
  from busyStep_inv[OF snoc] show ?case by simp
qed

lemma nextStep_inv:
  assumes "nextInv rt ref cur xs"
  shows "nextInv rt ref (nextStep rt ref cur x) (xs @ [x])"
proof (cases cur)
  case None
  with assms have no: "\<forall>i \<in> set xs. \<not> startsAfter ref i"
    by (simp add: nextInv_def)
  show ?thesis
  proof (cases "startsAfter ref x")
    case True
    with None have "nextStep rt ref cur x = Some (nextEntryFor rt x)"
      by (simp add: nextStep_alt)
    moreover have "\<forall>j \<in> set (xs @ [x]). startsAfter ref j \<longrightarrow> startMinutes x \<le> startMinutes j"
      using no by auto
    ultimately show ?thesis
      using True unfolding nextInv_def by force
  next
    case False
    with None have "nextStep rt ref cur x = None"
      by (simp add: nextStep_alt)
    with no False show ?thesis
      by (simp add: nextInv_def)
  qed
next
  case (Some e)
  with assms obtain i where i: "i \<in> set xs" "startsAfter ref i" "e = nextEntryFor rt i"
    "\<forall>j \<in> set xs. startsAfter ref j \<longrightarrow> startMinutes i \<le> startMinutes j"
    unfolding nextInv_def by auto
  show ?thesis
  proof (cases "startsAfter ref x \<and> startMinutes x < startMinutes i")
    case True
    with Some i have "nextStep rt ref cur x = Some (nextEntryFor rt x)"
      by (simp add: nextStep_alt nextEntryFor_start)
    moreover have "\<forall>j \<in> set (xs @ [x]). startsAfter ref j \<longrightarrow> startMinutes x \<le> startMinutes j"
      using i(4) True by fastforce
    ultimately show ?thesis
      using True unfolding nextInv_def by force
  next
    case False
    with Some i have "nextStep rt ref cur x = Some (nextEntryFor rt i)"
      by (auto simp: nextStep_alt nextEntryFor_start)
    moreover have "\<forall>j \<in> set (xs @ [x]). startsAfter ref j \<longrightarrow> startMinutes i \<le> startMinutes j"
      using i(4) False by auto
    moreover have "i \<in> set (xs @ [x])" using i(1) by simp
    ultimately show ?thesis
      using i(2) unfolding nextInv_def by force
  qed
qed

lemma nextFold_inv: "nextInv rt ref (foldl (nextStep rt ref) None ivs) ivs"
proof (induction ivs rule: rev_induct)
  case Nil
  then show ?case by (simp add: nextInv_def)
next
  case (snoc x xs)
  from nextStep_inv[OF snoc] show ?case by simp
qed

text \<open>The loop over the members.\<close>

lemma classifyMember_alt:
  "classifyMember U B N (f, b, u) m =
     (if MemberRow.user_id m \<notin> U then (f, b, u @ [unknownEntryOf m])
      else if map_of B (MemberRow.user_id m) \<noteq> None then (f, b @ [busyEntryOf B m], u)
      else (f @ [freeEntryOf N m], b, u))"
  by (auto simp: classifyMember_def Let_def unknownEntryOf_def busyEntryOf_def freeEntryOf_def
      split: option.splits)

lemma classifyMembers_fold:
  "foldl (classifyMember U B N) (f, b, u) ms =
     (f @ map (freeEntryOf N)
            (filter (\<lambda>m. MemberRow.user_id m \<in> U \<and> map_of B (MemberRow.user_id m) = None) ms),
      b @ map (busyEntryOf B)
            (filter (\<lambda>m. MemberRow.user_id m \<in> U \<and> map_of B (MemberRow.user_id m) \<noteq> None) ms),
      u @ map unknownEntryOf (filter (\<lambda>m. MemberRow.user_id m \<notin> U) ms))"
  by (induction ms arbitrary: f b u) (simp_all add: classifyMember_alt)

lemma classifyMembers_eq:
  "classifyMembers U B N ms =
     (map (freeEntryOf N)
        (filter (\<lambda>m. MemberRow.user_id m \<in> U \<and> map_of B (MemberRow.user_id m) = None) ms),
      map (busyEntryOf B)
        (filter (\<lambda>m. MemberRow.user_id m \<in> U \<and> map_of B (MemberRow.user_id m) \<noteq> None) ms),
      map unknownEntryOf (filter (\<lambda>m. MemberRow.user_id m \<notin> U) ms))"
  using classifyMembers_fold[of U B N "[]" "[]" "[]" ms] by (simp add: classifyMembers_def)

lemma entry_user_ids:
  "UnknownEntry.user_id (unknownEntryOf m) = MemberRow.user_id m"
  "UnknownEntry.user_id (busyEntryOf B m) = MemberRow.user_id m"
  "UnknownEntry.user_id (freeEntryOf N m) = MemberRow.user_id m"
  by (simp_all add: unknownEntryOf_def busyEntryOf_def freeEntryOf_def)

lemma intervalsOf_merged:
  "separated (intervalsOf (mergeBusyIntervals rt blocks) u)
   \<and> list_all proper (intervalsOf (mergeBusyIntervals rt blocks) u)"
proof (cases "map_of (mergeBusyIntervals rt blocks) u")
  case None
  then show ?thesis by (simp add: intervalsOf_def separated_def)
next
  case (Some out)
  from mergeBusyIntervals_entry[OF Some] obtain ivs where
    out: "out = mergeSorted (sortBy compareIntervals ivs)" and p: "list_all proper ivs"
    by blast
  from p have "list_all proper (sortBy compareIntervals ivs)"
    by (simp add: list_all_iff set_sortBy)
  with out Some show ?thesis
    by (simp add: intervalsOf_def mergeSorted_separated mergeSorted_proper)
qed

lemma sorted_wrt_related:
  assumes "sorted_wrt R xs" "x \<in> set xs" "y \<in> set xs"
  shows "x = y \<or> R x y \<or> R y x"
  using assms by (induction xs) auto

lemma containing_unique:
  assumes "separated xs" "list_all proper xs" "i \<in> set xs" "j \<in> set xs"
    "containsRef ref i" "containsRef ref j"
  shows "i = j"
proof -
  from assms(5) obtain r where r: "ref = Some r" "startMinutes i \<le> r" "r < endMinutes i"
    by (cases ref) (auto simp: containsRef_def jsLess_def jsLessEq_def)
  with assms(6) have rj: "startMinutes j \<le> r" "r < endMinutes j"
    by (auto simp: containsRef_def jsLess_def jsLessEq_def)
  from sorted_wrt_related[OF separated_all_pairs[OF assms(1,2)] assms(3,4)]
  show ?thesis using r rj by auto
qed

lemma classify_eq:
  "classify rt ref U members blocks =
     (map (freeEntryOf (snd (scanIntervals rt ref (mergeBusyIntervals rt blocks))))
        (filter (\<lambda>m. MemberRow.user_id m \<in> U
                     \<and> foldl (busyStep rt ref) None
                         (intervalsOf (mergeBusyIntervals rt blocks) (MemberRow.user_id m)) = None)
           members),
      map (busyEntryOf (fst (scanIntervals rt ref (mergeBusyIntervals rt blocks))))
        (filter (\<lambda>m. MemberRow.user_id m \<in> U
                     \<and> foldl (busyStep rt ref) None
                         (intervalsOf (mergeBusyIntervals rt blocks) (MemberRow.user_id m)) \<noteq> None)
           members),
      map unknownEntryOf (filter (\<lambda>m. MemberRow.user_id m \<notin> U) members))"
proof -
  have d: "distinct (map fst (mergeBusyIntervals rt blocks))"
    using mergeBusyIntervals_good[of rt blocks] by (simp add: goodGroups_def)
  show ?thesis
    by (simp add: classify_def Let_def classifyMembers_eq scanIntervals_busy[OF d])
qed

lemma busy_until_of:
  assumes "foldl (busyStep rt ref) None (intervalsOf (mergeBusyIntervals rt blocks) (MemberRow.user_id m)) = Some e"
  shows "BusyEntry.busy_until (busyEntryOf (fst (scanIntervals rt ref (mergeBusyIntervals rt blocks))) m)
           = BusyMapEntry.busy_until e"
proof -
  have d: "distinct (map fst (mergeBusyIntervals rt blocks))"
    using mergeBusyIntervals_good[of rt blocks] by (simp add: goodGroups_def)
  show ?thesis
    using assms by (simp add: busyEntryOf_def scanIntervals_busy[OF d])
qed

lemma free_until_of:
  "free_until (freeEntryOf (snd (scanIntervals rt ref (mergeBusyIntervals rt blocks))) m)
     = map_option startLabel
         (foldl (nextStep rt ref) None (intervalsOf (mergeBusyIntervals rt blocks) (MemberRow.user_id m)))"
proof -
  have d: "distinct (map fst (mergeBusyIntervals rt blocks))"
    using mergeBusyIntervals_good[of rt blocks] by (simp add: goodGroups_def)
  show ?thesis
    by (simp add: freeEntryOf_def scanIntervals_next[OF d])
qed

lemma busyFold_None_iff:
  "foldl (busyStep rt ref) None ivs = None \<longleftrightarrow> (\<forall>i \<in> set ivs. \<not> containsRef ref i)"
  using busyFold_inv[of rt ref ivs]
  by (cases "foldl (busyStep rt ref) None ivs") (auto simp: busyInv_def)

lemma busyFold_Some:
  assumes "foldl (busyStep rt ref) None ivs = Some e"
  shows "\<exists>i \<in> set ivs. containsRef ref i \<and> BusyMapEntry.busy_until e = formatTime rt (end_time i)"
  using busyFold_inv[of rt ref ivs] assms
  by (auto simp: busyInv_def busyEntryFor_def)

lemma nextFold_label:
  "(case map_option startLabel (foldl (nextStep rt ref) None ivs) of
      None \<Rightarrow> list_all (\<lambda>j. \<not> startsAfter ref j) ivs
    | Some l \<Rightarrow>
        (\<exists>j \<in> set ivs. startsAfter ref j \<and> l = formatTime rt (start_time j)
           \<and> (\<forall>k \<in> set ivs. startsAfter ref k \<longrightarrow> startMinutes j \<le> startMinutes k)))"
  using nextFold_inv[of rt ref ivs]
  by (cases "foldl (nextStep rt ref) None ivs") (auto simp: nextInv_def nextEntryFor_def list_all_iff)

lemma weekend_not_weekday:
  assumes "partValue ''weekday'' nowFormatted = Some ''Sat''
         \<or> partValue ''weekday'' nowFormatted = Some ''Sun''"
  shows "\<not> isWeekdayOf (getCurrentTimeParts rt nowFormatted)"
  using assms
  by (auto simp: isWeekdayOf_def getCurrentTimeParts_def Let_def WEEKDAY_LOOKUP_def)

lemma classify_no_blocks:
  "classify rt ref U members [] =
     (map (\<lambda>m. \<lparr>UnknownEntry.user_id = MemberRow.user_id m, display_name = memberName m,
                   free_until = None\<rparr>)
        (filter (\<lambda>m. MemberRow.user_id m \<in> U) members),
      [],
      map (\<lambda>m. \<lparr>UnknownEntry.user_id = MemberRow.user_id m, display_name = memberName m\<rparr>)
        (filter (\<lambda>m. MemberRow.user_id m \<notin> U) members))"
proof -
  have "mergeBusyIntervals rt [] = []"
    by (simp add: mergeBusyIntervals_def groupBlocks_def)
  then show ?thesis
    by (simp add: classify_def Let_def scanIntervals_def classifyMembers_eq
        freeEntryOf_def unknownEntryOf_def)
qed

section \<open>The claims on the availability classifier\<close>

text \<open>
  Claim C2, amended. For every member with an uploaded calendar, the classification
  yields busy if and only if some merged interval of the member satisfies
  \<open>startMinutes \<le> referenceMinutes < endMinutes\<close>; there is at most one such interval
  and \<open>busy_until\<close> is the \<open>formatTime\<close> of its \<open>end_time\<close>. Otherwise the member is
  free, and \<open>free_until\<close> is the \<open>formatTime\<close> of the \<open>start_time\<close> of the merged
  interval with the least start strictly greater than the reference minute, or null
  when there is none. \<open>formatTime\<close> is the 12-hour clock with the period in upper case:
  \<^verbatim>\<open>13:00:00\<close> gives \<^verbatim>\<open>1:00PM\<close> and \<^verbatim>\<open>14:30:00\<close> gives \<^verbatim>\<open>2:30PM\<close>.
\<close>

theorem classification_of_uploaded_member:
  assumes "m \<in> set members" and "MemberRow.user_id m \<in> uploadedSet"
    and "classify rt ref uploadedSet members blocks = (freeList, busyList, unknownList)"
    and "merged = intervalsOf (mergeBusyIntervals rt blocks) (MemberRow.user_id m)"
  shows "((\<exists>e \<in> set busyList. UnknownEntry.user_id e = MemberRow.user_id m)
            \<longleftrightarrow> (\<exists>i \<in> set merged. containsRef ref i))
       \<and> (\<forall>e \<in> set busyList. UnknownEntry.user_id e = MemberRow.user_id m \<longrightarrow>
             (\<exists>i \<in> set merged. containsRef ref i
                \<and> BusyEntry.busy_until e = formatTime rt (end_time i)))
       \<and> (\<forall>i \<in> set merged. \<forall>j \<in> set merged. containsRef ref i \<and> containsRef ref j \<longrightarrow> i = j)
       \<and> ((\<exists>e \<in> set freeList. UnknownEntry.user_id e = MemberRow.user_id m)
            \<longleftrightarrow> \<not> (\<exists>i \<in> set merged. containsRef ref i))
       \<and> (\<forall>e \<in> set freeList. UnknownEntry.user_id e = MemberRow.user_id m \<longrightarrow>
             (case free_until e of
                None \<Rightarrow> list_all (\<lambda>j. \<not> startsAfter ref j) merged
              | Some l \<Rightarrow>
                  (\<exists>j \<in> set merged. startsAfter ref j \<and> l = formatTime rt (start_time j)
                     \<and> (\<forall>k \<in> set merged. startsAfter ref k \<longrightarrow> startMinutes j \<le> startMinutes k))))
       \<and> (\<forall>e \<in> set unknownList. UnknownEntry.user_id e \<noteq> MemberRow.user_id m)
       \<and> formatTime exampleRuntime ''13:00:00'' = ''1:00PM''
       \<and> formatTime exampleRuntime ''14:30:00'' = ''2:30PM''"
proof -
  let ?M = "mergeBusyIntervals rt blocks"
  let ?busyOf = "\<lambda>x :: MemberRow. foldl (busyStep rt ref) None (intervalsOf ?M (MemberRow.user_id x))"
  from assms(3) have
    f: "freeList = map (freeEntryOf (snd (scanIntervals rt ref ?M)))
        (filter (\<lambda>x :: MemberRow. MemberRow.user_id x \<in> uploadedSet \<and> ?busyOf x = None) members)"
    and b: "busyList = map (busyEntryOf (fst (scanIntervals rt ref ?M)))
        (filter (\<lambda>x :: MemberRow. MemberRow.user_id x \<in> uploadedSet \<and> ?busyOf x \<noteq> None) members)"
    and u: "unknownList = map unknownEntryOf (filter (\<lambda>x :: MemberRow. MemberRow.user_id x \<notin> uploadedSet) members)"
    unfolding classify_eq by simp_all
  have same: "?busyOf x = ?busyOf m" if "MemberRow.user_id x = MemberRow.user_id m" for x :: MemberRow
    using that by simp
  have none_iff: "?busyOf m = None \<longleftrightarrow> \<not> (\<exists>i \<in> set merged. containsRef ref i)"
    unfolding assms(4) by (simp add: busyFold_None_iff)
  have c1: "(\<exists>e \<in> set busyList. UnknownEntry.user_id e = MemberRow.user_id m)
            \<longleftrightarrow> (\<exists>i \<in> set merged. containsRef ref i)"
  proof
    assume "\<exists>e \<in> set busyList. UnknownEntry.user_id e = MemberRow.user_id m"
    then obtain x :: MemberRow where "MemberRow.user_id x = MemberRow.user_id m" "?busyOf x \<noteq> None"
      unfolding b by (auto simp: entry_user_ids)
    with same[of x] none_iff show "\<exists>i \<in> set merged. containsRef ref i" by simp
  next
    assume "\<exists>i \<in> set merged. containsRef ref i"
    with none_iff have "?busyOf m \<noteq> None" by blast
    with assms(1,2) have "busyEntryOf (fst (scanIntervals rt ref ?M)) m \<in> set busyList"
      unfolding b by simp
    then show "\<exists>e \<in> set busyList. UnknownEntry.user_id e = MemberRow.user_id m"
      using entry_user_ids(2) by blast
  qed
  have c2: "\<forall>e \<in> set busyList. UnknownEntry.user_id e = MemberRow.user_id m \<longrightarrow>
             (\<exists>i \<in> set merged. containsRef ref i
                \<and> BusyEntry.busy_until e = formatTime rt (end_time i))"
  proof (intro ballI impI)
    fix e assume e: "e \<in> set busyList" "UnknownEntry.user_id e = MemberRow.user_id m"
    then obtain x :: MemberRow where x: "e = busyEntryOf (fst (scanIntervals rt ref ?M)) x"
      "MemberRow.user_id x = MemberRow.user_id m" "?busyOf x \<noteq> None"
      unfolding b by (auto simp: entry_user_ids)
    then obtain en where en: "?busyOf x = Some en" by blast
    from busy_until_of[OF en] x(1) have "BusyEntry.busy_until e = BusyMapEntry.busy_until en"
      by simp
    moreover from busyFold_Some[OF en] x(2) obtain i where
      "i \<in> set merged" "containsRef ref i" "BusyMapEntry.busy_until en = formatTime rt (end_time i)"
      unfolding assms(4) by auto
    ultimately show "\<exists>i \<in> set merged. containsRef ref i
                \<and> BusyEntry.busy_until e = formatTime rt (end_time i)"
      by auto
  qed
  have c3: "\<forall>i \<in> set merged. \<forall>j \<in> set merged. containsRef ref i \<and> containsRef ref j \<longrightarrow> i = j"
    using intervalsOf_merged[of rt blocks "MemberRow.user_id m"] containing_unique[of merged _ _ ref]
    unfolding assms(4) by blast
  have c4: "(\<exists>e \<in> set freeList. UnknownEntry.user_id e = MemberRow.user_id m)
            \<longleftrightarrow> \<not> (\<exists>i \<in> set merged. containsRef ref i)"
  proof
    assume "\<exists>e \<in> set freeList. UnknownEntry.user_id e = MemberRow.user_id m"
    then obtain x :: MemberRow where "MemberRow.user_id x = MemberRow.user_id m" "?busyOf x = None"
      unfolding f by (auto simp: entry_user_ids)
    with same[of x] none_iff show "\<not> (\<exists>i \<in> set merged. containsRef ref i)" by simp
  next
    assume "\<not> (\<exists>i \<in> set merged. containsRef ref i)"
    with none_iff have "?busyOf m = None" by blast
    with assms(1,2) have "freeEntryOf (snd (scanIntervals rt ref ?M)) m \<in> set freeList"
      unfolding f by simp
    then show "\<exists>e \<in> set freeList. UnknownEntry.user_id e = MemberRow.user_id m"
      using entry_user_ids(3) by blast
  qed
  have c5: "\<forall>e \<in> set freeList. UnknownEntry.user_id e = MemberRow.user_id m \<longrightarrow>
             (case free_until e of
                None \<Rightarrow> list_all (\<lambda>j. \<not> startsAfter ref j) merged
              | Some l \<Rightarrow>
                  (\<exists>j \<in> set merged. startsAfter ref j \<and> l = formatTime rt (start_time j)
                     \<and> (\<forall>k \<in> set merged. startsAfter ref k \<longrightarrow> startMinutes j \<le> startMinutes k)))"
  proof (intro ballI impI)
    fix e assume e: "e \<in> set freeList" "UnknownEntry.user_id e = MemberRow.user_id m"
    then obtain x :: MemberRow where x: "e = freeEntryOf (snd (scanIntervals rt ref ?M)) x"
      "MemberRow.user_id x = MemberRow.user_id m"
      unfolding f by (auto simp: entry_user_ids)
    have "free_until e = map_option startLabel (foldl (nextStep rt ref) None merged)"
      unfolding x(1) free_until_of assms(4) x(2) ..
    with nextFold_label[where rt = rt and ref = ref and ivs = merged]
    show "case free_until e of
                None \<Rightarrow> list_all (\<lambda>j. \<not> startsAfter ref j) merged
              | Some l \<Rightarrow>
                  (\<exists>j \<in> set merged. startsAfter ref j \<and> l = formatTime rt (start_time j)
                     \<and> (\<forall>k \<in> set merged. startsAfter ref k \<longrightarrow> startMinutes j \<le> startMinutes k))"
      by simp
  qed
  have c6: "\<forall>e \<in> set unknownList. UnknownEntry.user_id e \<noteq> MemberRow.user_id m"
    unfolding u using assms(2) by (auto simp: entry_user_ids)
  have c7: "formatTime exampleRuntime ''13:00:00'' = ''1:00PM''"
    by code_simp
  have c8: "formatTime exampleRuntime ''14:30:00'' = ''2:30PM''"
    by code_simp
  from c1 c2 c3 c4 c5 c6 c7 c8 show ?thesis by blast
qed

theorem classification_of_uploaded_member_witness:
  "exampleMembers ! 0 \<in> set exampleMembers
   \<and> MemberRow.user_id (exampleMembers ! 0) = ''u1''
   \<and> ''u1'' \<in> set [''u1'', ''u2'', ''u4'']
   \<and> classify exampleRuntime (Some 750) (set [''u1'', ''u2'', ''u4'']) exampleMembers exampleRows
       = ([\<lparr>UnknownEntry.user_id = ''u2'', display_name = ''u2'', free_until = Some ''2:30PM''\<rparr>,
           \<lparr>UnknownEntry.user_id = ''u4'', display_name = ''u4'', free_until = None\<rparr>],
          [\<lparr>UnknownEntry.user_id = ''u1'', display_name = ''Ann'', BusyEntry.busy_until = ''1:00PM''\<rparr>],
          [\<lparr>UnknownEntry.user_id = ''u3'', display_name = ''u3''\<rparr>])
   \<and> intervalsOf (mergeBusyIntervals exampleRuntime exampleRows) ''u1''
       = [\<lparr>startMinutes = 720, endMinutes = 780, start_time = ''12:00:00'', end_time = ''13:00:00''\<rparr>]
   \<and> (\<exists>i \<in> set [\<lparr>startMinutes = 720, endMinutes = 780, start_time = ''12:00:00'',
                    end_time = ''13:00:00''\<rparr>]. containsRef (Some 750) i)
   \<and> formatTime exampleRuntime ''13:00:00'' = ''1:00PM''"
proof -
  have m: "exampleMembers ! 0 \<in> set exampleMembers"
    by (simp add: exampleMembers_def)
  have uid: "MemberRow.user_id (exampleMembers ! 0) = ''u1''"
    by (simp add: exampleMembers_def)
  have up: "MemberRow.user_id (exampleMembers ! 0) \<in> set [''u1'', ''u2'', ''u4'']"
    unfolding uid by simp
  have iv: "[\<lparr>startMinutes = 720, endMinutes = 780, start_time = ''12:00:00'', end_time = ''13:00:00''\<rparr>]
       = intervalsOf (mergeBusyIntervals exampleRuntime exampleRows) (MemberRow.user_id (exampleMembers ! 0))"
    unfolding uid by code_simp
  have c: "classify exampleRuntime (Some 750) (set [''u1'', ''u2'', ''u4'']) exampleMembers exampleRows
       = ([\<lparr>UnknownEntry.user_id = ''u2'', display_name = ''u2'', free_until = Some ''2:30PM''\<rparr>,
           \<lparr>UnknownEntry.user_id = ''u4'', display_name = ''u4'', free_until = None\<rparr>],
          [\<lparr>UnknownEntry.user_id = ''u1'', display_name = ''Ann'', BusyEntry.busy_until = ''1:00PM''\<rparr>],
          [\<lparr>UnknownEntry.user_id = ''u3'', display_name = ''u3''\<rparr>])"
    by code_simp
  from classification_of_uploaded_member[OF m up c iv] m uid iv c show ?thesis
    by simp
qed

text \<open>
  The labels of claim C2 as the specification writes them, \<^verbatim>\<open>1:00pm\<close> and
  \<^verbatim>\<open>2:30pm\<close> in lower case, are not what the code produces: at 12:30 a member with
  a block from 12:00 to 13:00 is busy until \<^verbatim>\<open>1:00PM\<close>, and a member whose next block
  starts at 14:30 is free until \<^verbatim>\<open>2:30PM\<close>.
\<close>

theorem classification_label_counterexample:
  "classify exampleRuntime (Some 750) (set [''u1'', ''u2'', ''u4'']) exampleMembers exampleRows
     = ([\<lparr>UnknownEntry.user_id = ''u2'', display_name = ''u2'', free_until = Some ''2:30PM''\<rparr>,
         \<lparr>UnknownEntry.user_id = ''u4'', display_name = ''u4'', free_until = None\<rparr>],
        [\<lparr>UnknownEntry.user_id = ''u1'', display_name = ''Ann'', BusyEntry.busy_until = ''1:00PM''\<rparr>],
        [\<lparr>UnknownEntry.user_id = ''u3'', display_name = ''u3''\<rparr>])
   \<and> formatTime exampleRuntime ''13:00:00'' \<noteq> ''1:00pm''
   \<and> formatTime exampleRuntime ''14:30:00'' \<noteq> ''2:30pm''"
  by code_simp

text \<open>
  Claim C7. A member whose \<open>user_id\<close> is not in the uploaded-calendar set is
  classified unknown, whatever busy blocks are present: the member is in the
  \<open>unknown\<close> array, and no entry of \<open>free\<close> or \<open>busy\<close> carries that \<open>user_id\<close>.
\<close>

theorem member_without_upload_unknown:
  assumes "m \<in> set members" and "MemberRow.user_id m \<notin> uploadedSet"
    and "classify rt ref uploadedSet members blocks = (freeList, busyList, unknownList)"
  shows "\<lparr>UnknownEntry.user_id = MemberRow.user_id m, display_name = memberName m\<rparr> \<in> set unknownList
       \<and> (\<forall>e \<in> set freeList. UnknownEntry.user_id e \<noteq> MemberRow.user_id m)
       \<and> (\<forall>e \<in> set busyList. UnknownEntry.user_id e \<noteq> MemberRow.user_id m)"
proof -
  from assms(3) have
    f: "freeList = map (freeEntryOf (snd (scanIntervals rt ref (mergeBusyIntervals rt blocks))))
        (filter (\<lambda>m. MemberRow.user_id m \<in> uploadedSet
                     \<and> foldl (busyStep rt ref) None
                         (intervalsOf (mergeBusyIntervals rt blocks) (MemberRow.user_id m)) = None)
           members)"
    and b: "busyList = map (busyEntryOf (fst (scanIntervals rt ref (mergeBusyIntervals rt blocks))))
        (filter (\<lambda>m. MemberRow.user_id m \<in> uploadedSet
                     \<and> foldl (busyStep rt ref) None
                         (intervalsOf (mergeBusyIntervals rt blocks) (MemberRow.user_id m)) \<noteq> None)
           members)"
    and u: "unknownList = map unknownEntryOf (filter (\<lambda>m. MemberRow.user_id m \<notin> uploadedSet) members)"
    unfolding classify_eq by simp_all
  from assms(1,2) have "unknownEntryOf m \<in> set unknownList"
    unfolding u by simp
  then have "\<lparr>UnknownEntry.user_id = MemberRow.user_id m, display_name = memberName m\<rparr> \<in> set unknownList"
    by (simp add: unknownEntryOf_def)
  moreover have "\<forall>e \<in> set freeList. UnknownEntry.user_id e \<noteq> MemberRow.user_id m"
    unfolding f using assms(2) by (auto simp: entry_user_ids)
  moreover have "\<forall>e \<in> set busyList. UnknownEntry.user_id e \<noteq> MemberRow.user_id m"
    unfolding b using assms(2) by (auto simp: entry_user_ids)
  ultimately show ?thesis by blast
qed

theorem member_without_upload_unknown_witness:
  "exampleMembers ! 2 \<in> set exampleMembers
   \<and> MemberRow.user_id (exampleMembers ! 2) = ''u3''
   \<and> ''u3'' \<notin> set [''u1'', ''u2'', ''u4'']
   \<and> intervalsOf (mergeBusyIntervals exampleRuntime exampleRows) ''u3''
       = [\<lparr>startMinutes = 720, endMinutes = 780, start_time = ''12:00:00'', end_time = ''13:00:00''\<rparr>]
   \<and> classify exampleRuntime (Some 750) (set [''u1'', ''u2'', ''u4'']) exampleMembers exampleRows
       = ([\<lparr>UnknownEntry.user_id = ''u2'', display_name = ''u2'', free_until = Some ''2:30PM''\<rparr>,
           \<lparr>UnknownEntry.user_id = ''u4'', display_name = ''u4'', free_until = None\<rparr>],
          [\<lparr>UnknownEntry.user_id = ''u1'', display_name = ''Ann'', BusyEntry.busy_until = ''1:00PM''\<rparr>],
          [\<lparr>UnknownEntry.user_id = ''u3'', display_name = ''u3''\<rparr>])
   \<and> \<lparr>UnknownEntry.user_id = ''u3'', display_name = memberName (exampleMembers ! 2)\<rparr>
       \<in> set [\<lparr>UnknownEntry.user_id = ''u3'', display_name = ''u3''\<rparr>]"
proof -
  have m: "exampleMembers ! 2 \<in> set exampleMembers"
    by (simp add: exampleMembers_def)
  have uid: "MemberRow.user_id (exampleMembers ! 2) = ''u3''"
    by (simp add: exampleMembers_def)
  have nu: "MemberRow.user_id (exampleMembers ! 2) \<notin> set [''u1'', ''u2'', ''u4'']"
    unfolding uid by simp
  have iv: "intervalsOf (mergeBusyIntervals exampleRuntime exampleRows) ''u3''
       = [\<lparr>startMinutes = 720, endMinutes = 780, start_time = ''12:00:00'', end_time = ''13:00:00''\<rparr>]"
    by code_simp
  have c: "classify exampleRuntime (Some 750) (set [''u1'', ''u2'', ''u4'']) exampleMembers exampleRows
       = ([\<lparr>UnknownEntry.user_id = ''u2'', display_name = ''u2'', free_until = Some ''2:30PM''\<rparr>,
           \<lparr>UnknownEntry.user_id = ''u4'', display_name = ''u4'', free_until = None\<rparr>],
          [\<lparr>UnknownEntry.user_id = ''u1'', display_name = ''Ann'', BusyEntry.busy_until = ''1:00PM''\<rparr>],
          [\<lparr>UnknownEntry.user_id = ''u3'', display_name = ''u3''\<rparr>])"
    by code_simp
  from member_without_upload_unknown[OF m nu c] m uid iv c show ?thesis
    by simp
qed

text \<open>
  Claim C8. When the current weekday in the fixed time zone is Saturday or Sunday, the
  handler issues no query for busy blocks, and if it answers with a payload, every
  member with an uploaded calendar is reported free with \<open>free_until\<close> null; nobody is
  busy, and the other members are unknown.
\<close>

theorem weekend_no_fetch_all_free:
  assumes "partValue ''weekday'' nowFormatted = Some ''Sat''
         \<or> partValue ''weekday'' nowFormatted = Some ''Sun''"
  shows "snd (GET rt timeParam members uploads nowFormatted fetchBlocks) = []
       \<and> (\<forall>p. fst (GET rt timeParam members uploads nowFormatted fetchBlocks) = AvailabilityResponse p \<longrightarrow>
             free p = map (\<lambda>m. \<lparr>UnknownEntry.user_id = MemberRow.user_id m,
                                  display_name = memberName m, free_until = None\<rparr>)
                        (filter (\<lambda>m. MemberRow.user_id m
                                       \<in> set (case data uploads of None \<Rightarrow> [] | Some rows \<Rightarrow> rows))
                           members)
             \<and> busy p = []
             \<and> unknown p = map (\<lambda>m. \<lparr>UnknownEntry.user_id = MemberRow.user_id m,
                                        display_name = memberName m\<rparr>)
                              (filter (\<lambda>m. MemberRow.user_id m
                                             \<notin> set (case data uploads of None \<Rightarrow> [] | Some rows \<Rightarrow> rows))
                                 members))"
proof -
  from weekend_not_weekday[OF assms, of rt]
  have l: "loadBusyBlocks (getCurrentTimeParts rt nowFormatted) ids fetchBlocks = (Inr [], [])" for ids
    by (simp add: loadBusyBlocks_def)
  show ?thesis
    by (cases "members = []") (simp_all add: GET_def Let_def l classify_no_blocks)
qed

theorem weekend_no_fetch_all_free_witness:
  "partValue ''weekday'' saturdayNoon = Some ''Sat''
   \<and> GET exampleRuntime None exampleMembers exampleUploads saturdayNoon exampleFetch
       = (AvailabilityResponse
            \<lparr>free = [\<lparr>UnknownEntry.user_id = ''u1'', display_name = ''Ann'', free_until = None\<rparr>,
                      \<lparr>UnknownEntry.user_id = ''u2'', display_name = ''u2'', free_until = None\<rparr>,
                      \<lparr>UnknownEntry.user_id = ''u4'', display_name = ''u4'', free_until = None\<rparr>],
             busy = [],
             unknown = [\<lparr>UnknownEntry.user_id = ''u3'', display_name = ''u3''\<rparr>],
             checked_time = None\<rparr>, [])
   \<and> snd (GET exampleRuntime None exampleMembers exampleUploads saturdayNoon exampleFetch) = []
   \<and> snd (GET exampleRuntime None exampleMembers exampleUploads tuesdayMorning exampleFetch)
       = [(2, [''u1'', ''u2'', ''u3'', ''u4''])]"
proof -
  have h: "partValue ''weekday'' saturdayNoon = Some ''Sat''"
    by code_simp
  have g: "GET exampleRuntime None exampleMembers exampleUploads saturdayNoon exampleFetch
       = (AvailabilityResponse
            \<lparr>free = [\<lparr>UnknownEntry.user_id = ''u1'', display_name = ''Ann'', free_until = None\<rparr>,
                      \<lparr>UnknownEntry.user_id = ''u2'', display_name = ''u2'', free_until = None\<rparr>,
                      \<lparr>UnknownEntry.user_id = ''u4'', display_name = ''u4'', free_until = None\<rparr>],
             busy = [],
             unknown = [\<lparr>UnknownEntry.user_id = ''u3'', display_name = ''u3''\<rparr>],
             checked_time = None\<rparr>, [])"
    by code_simp
  have t: "snd (GET exampleRuntime None exampleMembers exampleUploads tuesdayMorning exampleFetch)
       = [(2, [''u1'', ''u2'', ''u3'', ''u4''])]"
    by code_simp
  from weekend_no_fetch_all_free[of saturdayNoon exampleRuntime None exampleMembers
      exampleUploads exampleFetch] h g t
  show ?thesis by simp
qed

section \<open>Lemmas on the labels of the classifier\<close>

lemma intervalsOf_consistent:
  "list_all (consistent rt) (intervalsOf (mergeBusyIntervals rt blocks) u)"
proof (cases "map_of (mergeBusyIntervals rt blocks) u")
  case None
  then show ?thesis by (simp add: intervalsOf_def)
next
  case (Some out)
  from mergeBusyIntervals_entry[OF Some] obtain ivs where
    out: "out = mergeSorted (sortBy compareIntervals ivs)" and c: "list_all (consistent rt) ivs"
    by blast
  from c have "list_all (consistent rt) (sortBy compareIntervals ivs)"
    by (simp add: list_all_iff set_sortBy)
  with out Some show ?thesis
    by (simp add: intervalsOf_def mergeSorted_consistent)
qed

lemma busy_entry_label:
  assumes "classify rt ref U members blocks = (freeList, busyList, unknownList)"
    and "e \<in> set busyList"
  shows "\<exists>i \<in> set (intervalsOf (mergeBusyIntervals rt blocks) (UnknownEntry.user_id e)).
           containsRef ref i \<and> BusyEntry.busy_until e = formatTime rt (end_time i)
           \<and> timeToMinutes rt (end_time i) = Some (endMinutes i)"
proof -
  let ?M = "mergeBusyIntervals rt blocks"
  let ?busyOf = "\<lambda>x :: MemberRow. foldl (busyStep rt ref) None (intervalsOf ?M (MemberRow.user_id x))"
  from assms(1) have
    b: "busyList = map (busyEntryOf (fst (scanIntervals rt ref ?M)))
        (filter (\<lambda>x :: MemberRow. MemberRow.user_id x \<in> U \<and> ?busyOf x \<noteq> None) members)"
    unfolding classify_eq by simp
  from assms(2) obtain x :: MemberRow where x: "e = busyEntryOf (fst (scanIntervals rt ref ?M)) x"
    "?busyOf x \<noteq> None"
    unfolding b by auto
  then obtain en where en: "?busyOf x = Some en" by blast
  have uid: "UnknownEntry.user_id e = MemberRow.user_id x"
    unfolding x(1) by (rule entry_user_ids)
  from busy_until_of[OF en] x(1) have l: "BusyEntry.busy_until e = BusyMapEntry.busy_until en"
    by simp
  from busyFold_Some[OF en] obtain i where
    i: "i \<in> set (intervalsOf ?M (MemberRow.user_id x))" "containsRef ref i"
    "BusyMapEntry.busy_until en = formatTime rt (end_time i)"
    by auto
  from intervalsOf_consistent[of rt blocks "MemberRow.user_id x"] i(1)
  have "timeToMinutes rt (end_time i) = Some (endMinutes i)"
    by (simp add: list_all_iff consistent_def)
  with i l uid show ?thesis by auto
qed

lemma free_entry_label:
  assumes "classify rt ref U members blocks = (freeList, busyList, unknownList)"
    and "e \<in> set freeList" and "free_until e = Some l"
  shows "\<exists>j \<in> set (intervalsOf (mergeBusyIntervals rt blocks) (UnknownEntry.user_id e)).
           startsAfter ref j \<and> l = formatTime rt (start_time j)
           \<and> timeToMinutes rt (start_time j) = Some (startMinutes j)"
proof -
  let ?M = "mergeBusyIntervals rt blocks"
  from assms(1) have "set freeList \<subseteq> range (freeEntryOf (snd (scanIntervals rt ref ?M)))"
    unfolding classify_eq by auto
  with assms(2) obtain x :: MemberRow where x: "e = freeEntryOf (snd (scanIntervals rt ref ?M)) x"
    by auto
  have uid: "UnknownEntry.user_id e = MemberRow.user_id x"
    unfolding x by (rule entry_user_ids)
  let ?ivs = "intervalsOf ?M (MemberRow.user_id x)"
  have "free_until e = map_option startLabel (foldl (nextStep rt ref) None ?ivs)"
    unfolding x free_until_of ..
  with assms(3) nextFold_label[where rt = rt and ref = ref and ivs = ?ivs]
  obtain j where j: "j \<in> set ?ivs" "startsAfter ref j" "l = formatTime rt (start_time j)"
    by auto
  from intervalsOf_consistent[of rt blocks "MemberRow.user_id x"] j(1)
  have "timeToMinutes rt (start_time j) = Some (startMinutes j)"
    by (simp add: list_all_iff consistent_def)
  with j uid show ?thesis by auto
qed

section \<open>The claim on the labels of merged intervals\<close>

text \<open>
  Claim C10, amended. Every interval that \<open>mergeBusyIntervals\<close> produces keeps its minute
  fields consistent with its clock strings: \<open>timeToMinutes\<close> of \<open>start_time\<close> is
  \<open>startMinutes\<close> and \<open>timeToMinutes\<close> of \<open>end_time\<close> is \<open>endMinutes\<close>, also after an
  interval was extended. So \<open>busy_until\<close> is \<open>formatTime\<close> of the \<open>end_time\<close> of a merged
  interval that contains the reference minute, \<open>free_until\<close> is \<open>formatTime\<close> of the
  \<open>start_time\<close> of a merged interval after it, and these strings convert to exactly the
  boundary minutes used in the containment checks. (What \<open>formatTime\<close> shows of the
  string is the hour on the 12-hour clock and the minute: see the counterexample below.)
\<close>

theorem merged_labels_consistent:
  "(\<forall>u out. map_of (mergeBusyIntervals rt blocks) u = Some out \<longrightarrow>
      (\<forall>i \<in> set out.
         timeToMinutes rt (start_time i) = Some (startMinutes i)
         \<and> timeToMinutes rt (end_time i) = Some (endMinutes i)))
   \<and> (\<forall>freeList busyList unknownList.
        classify rt ref uploadedSet members blocks = (freeList, busyList, unknownList) \<longrightarrow>
        (\<forall>e \<in> set busyList.
           \<exists>i \<in> set (intervalsOf (mergeBusyIntervals rt blocks) (UnknownEntry.user_id e)).
             containsRef ref i \<and> BusyEntry.busy_until e = formatTime rt (end_time i)
             \<and> timeToMinutes rt (end_time i) = Some (endMinutes i))
        \<and> (\<forall>e \<in> set freeList. \<forall>l. free_until e = Some l \<longrightarrow>
             (\<exists>j \<in> set (intervalsOf (mergeBusyIntervals rt blocks) (UnknownEntry.user_id e)).
                startsAfter ref j \<and> l = formatTime rt (start_time j)
                \<and> timeToMinutes rt (start_time j) = Some (startMinutes j))))"
proof -
  have "timeToMinutes rt (start_time i) = Some (startMinutes i)
         \<and> timeToMinutes rt (end_time i) = Some (endMinutes i)"
    if "map_of (mergeBusyIntervals rt blocks) u = Some out" "i \<in> set out" for u out i
  proof -
    from mergeBusyIntervals_entry[OF that(1)] obtain ivs where
      out: "out = mergeSorted (sortBy compareIntervals ivs)" and c: "list_all (consistent rt) ivs"
      by blast
    from c have "list_all (consistent rt) (sortBy compareIntervals ivs)"
      by (simp add: list_all_iff set_sortBy)
    then have "list_all (consistent rt) out"
      using out by (simp add: mergeSorted_consistent)
    with that(2) show ?thesis
      by (simp add: list_all_iff consistent_def)
  qed
  with busy_entry_label[of rt ref uploadedSet members blocks]
    free_entry_label[of rt ref uploadedSet members blocks]
  show ?thesis by blast
qed

theorem merged_labels_consistent_witness:
  "map_of (mergeBusyIntervals exampleRuntime exampleBlocks) ''u'' = Some exampleMerged
   \<and> list_all (\<lambda>i. timeToMinutes exampleRuntime (start_time i) = Some (startMinutes i)
                   \<and> timeToMinutes exampleRuntime (end_time i) = Some (endMinutes i)) exampleMerged
   \<and> end_time (hd exampleMerged) = ''15:00:00'' \<and> endMinutes (hd exampleMerged) = 900
   \<and> classify exampleRuntime (Some 750) (set [''u1'', ''u2'', ''u4'']) exampleMembers exampleRows
       = ([\<lparr>UnknownEntry.user_id = ''u2'', display_name = ''u2'', free_until = Some ''2:30PM''\<rparr>,
           \<lparr>UnknownEntry.user_id = ''u4'', display_name = ''u4'', free_until = None\<rparr>],
          [\<lparr>UnknownEntry.user_id = ''u1'', display_name = ''Ann'', BusyEntry.busy_until = ''1:00PM''\<rparr>],
          [\<lparr>UnknownEntry.user_id = ''u3'', display_name = ''u3''\<rparr>])
   \<and> (\<exists>i \<in> set (intervalsOf (mergeBusyIntervals exampleRuntime exampleRows) ''u1'').
          containsRef (Some 750) i \<and> ''1:00PM'' = formatTime exampleRuntime (end_time i)
          \<and> timeToMinutes exampleRuntime (end_time i) = Some (endMinutes i))
   \<and> (\<exists>j \<in> set (intervalsOf (mergeBusyIntervals exampleRuntime exampleRows) ''u2'').
          startsAfter (Some 750) j \<and> ''2:30PM'' = formatTime exampleRuntime (start_time j)
          \<and> timeToMinutes exampleRuntime (start_time j) = Some (startMinutes j))"
proof -
  have h: "map_of (mergeBusyIntervals exampleRuntime exampleBlocks) ''u'' = Some exampleMerged"
    by code_simp
  have x: "end_time (hd exampleMerged) = ''15:00:00''" "endMinutes (hd exampleMerged) = 900"
    by (simp_all add: exampleMerged_def)
  have c: "classify exampleRuntime (Some 750) (set [''u1'', ''u2'', ''u4'']) exampleMembers exampleRows
       = ([\<lparr>UnknownEntry.user_id = ''u2'', display_name = ''u2'', free_until = Some ''2:30PM''\<rparr>,
           \<lparr>UnknownEntry.user_id = ''u4'', display_name = ''u4'', free_until = None\<rparr>],
          [\<lparr>UnknownEntry.user_id = ''u1'', display_name = ''Ann'', BusyEntry.busy_until = ''1:00PM''\<rparr>],
          [\<lparr>UnknownEntry.user_id = ''u3'', display_name = ''u3''\<rparr>])"
    by code_simp
  note t = merged_labels_consistent[of exampleRuntime exampleBlocks "Some 750"
      "set [''u1'', ''u2'', ''u4'']" exampleMembers]
  note t2 = merged_labels_consistent[of exampleRuntime exampleRows "Some 750"
      "set [''u1'', ''u2'', ''u4'']" exampleMembers]
  from t h have p1: "list_all (\<lambda>i. timeToMinutes exampleRuntime (start_time i) = Some (startMinutes i)
                   \<and> timeToMinutes exampleRuntime (end_time i) = Some (endMinutes i)) exampleMerged"
    unfolding list_all_iff by blast
  from t2 c have p2: "\<exists>i \<in> set (intervalsOf (mergeBusyIntervals exampleRuntime exampleRows) ''u1'').
          containsRef (Some 750) i \<and> ''1:00PM'' = formatTime exampleRuntime (end_time i)
          \<and> timeToMinutes exampleRuntime (end_time i) = Some (endMinutes i)"
    by fastforce
  from t2 c have p3: "\<exists>j \<in> set (intervalsOf (mergeBusyIntervals exampleRuntime exampleRows) ''u2'').
          startsAfter (Some 750) j \<and> ''2:30PM'' = formatTime exampleRuntime (start_time j)
          \<and> timeToMinutes exampleRuntime (start_time j) = Some (startMinutes j)"
    by fastforce
  from h x c p1 p2 p3 show ?thesis by blast
qed

text \<open>
  The closing clause of claim C10, that the labels always denote exactly the merged
  boundary minutes, fails in the code: \<open>formatTime\<close> reads only the hour and the minute
  of the string and reduces the hour to the 12-hour clock. A block from 12:00:00 to
  12:00:30 merges into an interval that ends at minute 720.5; at 12:00:15 its member is
  busy until \<^verbatim>\<open>12:00PM\<close>, which is the label of minute 720, the start of the interval.
  An end of 24:00:00, minute 1440, has the same label.
\<close>

theorem label_drops_seconds_counterexample:
  "mergeBusyIntervals exampleRuntime
     [\<lparr>user_id = ''u1'', start_time = ''12:00:00'', end_time = ''12:00:30''\<rparr>]
     = [(''u1'', [\<lparr>startMinutes = 720, endMinutes = 1441 / 2,
                    start_time = ''12:00:00'', end_time = ''12:00:30''\<rparr>])]
   \<and> timeToMinutes exampleRuntime ''12:00:15'' = Some (2881 / 4)
   \<and> classify exampleRuntime (Some (2881 / 4)) (set [''u1'']) exampleMembers
        [\<lparr>user_id = ''u1'', start_time = ''12:00:00'', end_time = ''12:00:30''\<rparr>]
       = ([],
          [\<lparr>UnknownEntry.user_id = ''u1'', display_name = ''Ann'', BusyEntry.busy_until = ''12:00PM''\<rparr>],
          [\<lparr>UnknownEntry.user_id = ''u2'', display_name = ''u2''\<rparr>,
           \<lparr>UnknownEntry.user_id = ''u3'', display_name = ''u3''\<rparr>,
           \<lparr>UnknownEntry.user_id = ''u4'', display_name = ''u4''\<rparr>])
   \<and> formatTime exampleRuntime ''12:00:30'' = ''12:00PM''
   \<and> timeToMinutes exampleRuntime ''12:00:30'' = Some (1441 / 2)
   \<and> formatTime exampleRuntime ''12:00:00'' = ''12:00PM''
   \<and> timeToMinutes exampleRuntime ''12:00:00'' = Some 720
   \<and> timeToMinutes exampleRuntime ''12:00:30'' \<noteq> timeToMinutes exampleRuntime ''12:00:00''
   \<and> formatTime exampleRuntime ''24:00:00'' = ''12:00PM''
   \<and> timeToMinutes exampleRuntime ''24:00:00'' = Some 1440"
  by code_simp

end
